theory Spec2Isabelle
  imports Complex_Main "HOL-Library.Log_Nat"
begin

section \<open>Data model\<close>

text \<open>
  The embedding follows \<^verbatim>\<open>webapp/model/mfaAuth.js\<close> (class \<^verbatim>\<open>MfaAuthModel\<close>) and
  \<^verbatim>\<open>webapp/controller/mfaAuth.js\<close> (class \<^verbatim>\<open>MfaAuthController\<close>).

  Conventions of the embedding:
  \<^item> a \<^verbatim>\<open>Date\<close> is its number of milliseconds since the epoch, an \<^typ>\<open>int\<close>; a field that
    holds \<^verbatim>\<open>null\<close> or a \<^verbatim>\<open>Date\<close> is an \<^typ>\<open>int option\<close> (a \<^verbatim>\<open>Date\<close> object is always truthy);
  \<^item> every \<^verbatim>\<open>new Date()\<close> and \<^verbatim>\<open>Date.now()\<close> of one operation reads the same clock value,
    the parameter \<open>now\<close>;
  \<^item> the plain text of \<^verbatim>\<open>encrypt\<close> and the result of \<^verbatim>\<open>decrypt\<close> are JavaScript strings as they
    are, lists of UTF-16 code units (\<open>js_text\<close>), unpaired surrogates included;
  \<^item> every other string (identifiers, submitted codes, hashes, encoded blobs) is the list of
    the bytes of its UTF-8 encoding (\<^typ>\<open>string\<close>), which is also how a \<^verbatim>\<open>Buffer\<close> is
    represented, so \<^verbatim>\<open>Buffer.from(s)\<close> is \<open>s\<close> itself and the byte length of a buffer is
    \<^const>\<open>length\<close>;
  \<^item> a number is an integer-valued IEEE double, an \<^typ>\<open>int\<close> whose sums and products are
    rounded to the nearest double (\<open>roundToDouble\<close>);
  \<^item> the \<^verbatim>\<open>mfa\<close> sub-document of a user carries the defaults of the schema extension
    (\<^verbatim>\<open>registerSchemaExtension\<close>): the source reads it through \<^verbatim>\<open>?.\<close> and \<^verbatim>\<open>||\<close>, under which a
    missing field and its default are the same value;
  \<^item> the awaited result of \<^verbatim>\<open>getConfig()\<close> is the parameter \<open>cfg\<close>.
\<close>

type_synonym timestamp = int
type_synonym js_text = "nat list"

record mfa_profile =
  enabled :: bool
  secret :: string
  backupCodes :: "string list"
  enrolledAt :: "timestamp option"
  lastUsedAt :: "timestamp option"
  failedAttempts :: int
  lockedUntil :: "timestamp option"
  gracePeriodUntil :: "timestamp option"

record user =
  user_id :: string
  username :: string
  roles :: "string list option"
  passwordHash :: string
  mfa :: mfa_profile

record config =
  mfaPolicy :: string
  requiredRoles :: "string list"
  gracePeriodDays :: int
  issuerName :: string
  maxFailedAttempts :: int
  lockoutDuration :: int
  backupCodeCount :: nat

text \<open>\<^verbatim>\<open>getDefaultConfig()\<close>.\<close>

definition getDefaultConfig :: config where
  "getDefaultConfig =
    \<lparr>mfaPolicy = ''optional'', requiredRoles = [''root''], gracePeriodDays = 7,
     issuerName = ''jPulse'', maxFailedAttempts = 5, lockoutDuration = 15,
     backupCodeCount = 10\<rparr>"

text \<open>
  The user store \<^verbatim>\<open>global.UserModel\<close> belongs to the host framework. It is a map from user
  ids to user documents; \<^verbatim>\<open>global.UserModel\<close> itself may be undefined (\<open>None\<close>), which the
  source tests before each access. \<^verbatim>\<open>findById\<close> is the map lookup; \<^verbatim>\<open>updateById\<close> with
  \<^verbatim>\<open>mfa.*\<close> paths rewrites those fields of the stored \<^verbatim>\<open>mfa\<close> sub-document and touches
  nothing else (an unknown id changes nothing).
\<close>

type_synonym user_store = "string \<rightharpoonup> user"
type_synonym world = "user_store option"

definition updateById :: "string \<Rightarrow> (mfa_profile \<Rightarrow> mfa_profile) \<Rightarrow> user_store \<Rightarrow> user_store" where
  "updateById userId upd st =
    (case st userId of
       None \<Rightarrow> st
     | Some u \<Rightarrow> st(userId \<mapsto> u\<lparr>mfa := upd (mfa u)\<rparr>))"

text \<open>
  Arithmetic on integer-valued doubles: the exact result rounded to the nearest double,
  ties to the even significand (integers up to \<open>2 ^ 53\<close> are exact). \<^verbatim>\<open>new Date(t)\<close> is a
  valid date only for \<open>\<bar>t\<bar> \<le> 8.64e15\<close>; an Invalid Date is \<open>None\<close>.
\<close>

definition roundToDouble :: "int \<Rightarrow> int" where
  "roundToDouble n =
    (let a = \<bar>n\<bar>
     in if a \<le> 2 ^ 53 then n
        else
          (let e = nat (bitlen a - 53);
               q = a div 2 ^ e;
               r = a mod 2 ^ e;
               q' = (if 2 * r > 2 ^ e \<or> (2 * r = 2 ^ e \<and> odd q) then q + 1 else q)
           in sgn n * (q' * 2 ^ e)))"

definition jsAdd :: "int \<Rightarrow> int \<Rightarrow> int" where
  "jsAdd a b = roundToDouble (a + b)"

definition jsMul :: "int \<Rightarrow> int \<Rightarrow> int" where
  "jsMul a b = roundToDouble (a * b)"

definition newDate :: "int \<Rightarrow> timestamp option" where
  "newDate t = (if \<bar>t\<bar> \<le> 8640000000000000 then Some t else None)"

section \<open>Policy: \<^verbatim>\<open>isMfaRequired\<close>\<close>

datatype reason = Enabled | PolicyRequired | RoleRequired | GracePeriod | Optional

record mfa_required =
  required :: bool
  reason :: reason

text \<open>\<^verbatim>\<open>user.roles || ['user']\<close>: an array, even an empty one, is truthy.\<close>

definition userRoles :: "user \<Rightarrow> string list" where
  "userRoles u = (case roles u of None \<Rightarrow> [''user''] | Some rs \<Rightarrow> rs)"

text \<open>
  The test \<^verbatim>\<open>user.mfa?.gracePeriodUntil && new Date() < new Date(user.mfa.gracePeriodUntil)\<close>,
  which the source writes out in both policy branches.
\<close>

definition inGracePeriod :: "timestamp \<Rightarrow> user \<Rightarrow> bool" where
  "inGracePeriod now u =
    (case gracePeriodUntil (mfa u) of None \<Rightarrow> False | Some g \<Rightarrow> now < g)"

definition isMfaRequired :: "config \<Rightarrow> timestamp \<Rightarrow> user \<Rightarrow> mfa_required" where
  "isMfaRequired cfg now u =
    (if enabled (mfa u) then \<lparr>required = True, reason = Enabled\<rparr>
     else if mfaPolicy cfg = ''required'' then
       (if inGracePeriod now u then \<lparr>required = False, reason = GracePeriod\<rparr>
        else \<lparr>required = True, reason = PolicyRequired\<rparr>)
     else if mfaPolicy cfg = ''required-for-roles'' then
       (let hasRequiredRole =
              list_ex (\<lambda>role. List.member (requiredRoles cfg) role) (userRoles u)
        in if hasRequiredRole then
             (if inGracePeriod now u then \<lparr>required = False, reason = GracePeriod\<rparr>
              else \<lparr>required = True, reason = RoleRequired\<rparr>)
           else \<lparr>required = False, reason = Optional\<rparr>)
     else \<lparr>required = False, reason = Optional\<rparr>)"




section \<open>Lockout: \<^verbatim>\<open>recordSuccess\<close>, \<^verbatim>\<open>recordFailure\<close>, \<^verbatim>\<open>isLocked\<close>\<close>

definition recordSuccess :: "timestamp \<Rightarrow> string \<Rightarrow> world \<Rightarrow> world" where
  "recordSuccess now userId w =
    (case w of
       None \<Rightarrow> None
     | Some st \<Rightarrow>
         Some (updateById userId
           (\<lambda>m. m\<lparr>lastUsedAt := Some now, failedAttempts := 0, lockedUntil := None\<rparr>) st))"

text \<open>
  \<^verbatim>\<open>recordFailure\<close> returns \<open>None\<close> where the lock time it computes is an Invalid Date: the
  store would then hold a \<open>lockedUntil\<close> that is no timestamp, which the data model does
  not contain.
\<close>

record failure_result =
  rf_locked :: bool
  rf_lockedUntil :: "timestamp option"
  rf_attempts :: int

definition recordFailure ::
  "config \<Rightarrow> timestamp \<Rightarrow> string \<Rightarrow> world \<Rightarrow> (failure_result \<times> world) option" where
  "recordFailure cfg now userId w =
    (case w of
       None \<Rightarrow> Some (\<lparr>rf_locked = False, rf_lockedUntil = None, rf_attempts = 0\<rparr>, None)
     | Some st \<Rightarrow>
         (let currentAttempts =
                jsAdd (case st userId of None \<Rightarrow> 0 | Some u \<Rightarrow> failedAttempts (mfa u)) 1
          in if currentAttempts \<ge> maxFailedAttempts cfg then
               (case newDate (jsAdd now (jsMul (jsMul (lockoutDuration cfg) 60) 1000)) of
                  None \<Rightarrow> None
                | Some until \<Rightarrow>
                    Some (\<lparr>rf_locked = True, rf_lockedUntil = Some until,
                           rf_attempts = currentAttempts\<rparr>,
                          Some (updateById userId
                            (\<lambda>m. m\<lparr>failedAttempts := currentAttempts,
                                    lockedUntil := Some until\<rparr>) st)))
             else
               Some (\<lparr>rf_locked = False, rf_lockedUntil = None,
                      rf_attempts = currentAttempts\<rparr>,
                     Some (updateById userId (\<lambda>m. m\<lparr>failedAttempts := currentAttempts\<rparr>)
                       st))))"

record lock_status =
  ls_locked :: bool
  ls_lockedUntil :: "timestamp option"
  ls_remainingMinutes :: "int option"

definition isLocked :: "timestamp \<Rightarrow> user \<Rightarrow> lock_status" where
  "isLocked now u =
    (case lockedUntil (mfa u) of
       None \<Rightarrow> \<lparr>ls_locked = False, ls_lockedUntil = None, ls_remainingMinutes = None\<rparr>
     | Some lockDate \<Rightarrow>
         if now \<ge> lockDate then
           \<lparr>ls_locked = False, ls_lockedUntil = None, ls_remainingMinutes = None\<rparr>
         else
           (let remainingMs = lockDate - now;
                remainingMinutes = \<lceil>real_of_int remainingMs / 60000\<rceil>
            in \<lparr>ls_locked = True, ls_lockedUntil = Some lockDate,
                ls_remainingMinutes = Some remainingMinutes\<rparr>))"

text \<open>
  The scenario of the specification's testable properties: consecutive failed attempts of
  one user, one clock value per attempt, the reports collected in order.
\<close>

fun consecutiveFailures ::
  "config \<Rightarrow> timestamp list \<Rightarrow> string \<Rightarrow> world \<Rightarrow> (failure_result list \<times> world) option" where
  "consecutiveFailures cfg [] userId w = Some ([], w)"
| "consecutiveFailures cfg (t # ts) userId w =
    (case recordFailure cfg t userId w of
       None \<Rightarrow> None
     | Some (r, w1) \<Rightarrow>
         (case consecutiveFailures cfg ts userId w1 of
            None \<Rightarrow> None
          | Some (rs, w2) \<Rightarrow> Some (r # rs, w2)))"

section \<open>Platform primitives\<close>

text \<open>
  Errors of the platform that the modelled code can meet, as values: the \<^verbatim>\<open>RangeError\<close>
  of \<^verbatim>\<open>crypto.timingSafeEqual\<close> on buffers of different byte lengths, the failures of
  \<^verbatim>\<open>createDecipheriv\<close>, \<^verbatim>\<open>setAuthTag\<close> and \<^verbatim>\<open>decipher.final\<close>, and the two ways in which a
  missing \<^verbatim>\<open>global.UserModel\<close> surfaces.
\<close>

datatype js_error =
    InputLengthMismatch
  | InvalidIv
  | InvalidAuthTag
  | AuthFailed
  | UserModelUndefined
  | UserModelNotInitialized

text \<open>
  The primitives of Node's \<^verbatim>\<open>crypto\<close> and \<^verbatim>\<open>Buffer\<close> that the model class calls are
  parameters, collected in one record: \<^verbatim>\<open>scryptSync(secret, salt, keylen)\<close>; AES-256-GCM
  encryption (\<^verbatim>\<open>createCipheriv\<close>, \<^verbatim>\<open>update\<close>, \<^verbatim>\<open>final\<close>, \<^verbatim>\<open>getAuthTag\<close>) from key, IV and
  plain text to cipher text and tag; AES-256-GCM decryption (\<^verbatim>\<open>createDecipheriv\<close>,
  \<^verbatim>\<open>setAuthTag\<close>, \<^verbatim>\<open>update\<close>, \<^verbatim>\<open>final\<close>) from key, IV, tag and cipher text to the plain
  text or the error thrown; the base64 codec of \<^verbatim>\<open>Buffer\<close>;
  \<^verbatim>\<open>createHash('sha256').update(s).digest('hex')\<close>; the UTF-8 decoder behind
  \<^verbatim>\<open>decipher.update(data, null, 'utf8')\<close>; and \<^verbatim>\<open>String.prototype.toUpperCase\<close> (the Unicode
  upper-casing, on the UTF-8 bytes of the string).
\<close>

record crypto =
  scryptSync :: "string \<Rightarrow> string \<Rightarrow> nat \<Rightarrow> string"
  gcmEncrypt :: "string \<Rightarrow> string \<Rightarrow> string \<Rightarrow> string \<times> string"
  gcmDecrypt :: "string \<Rightarrow> string \<Rightarrow> string \<Rightarrow> string \<Rightarrow> js_error + string"
  base64Encode :: "string \<Rightarrow> string"
  base64Decode :: "string \<Rightarrow> string"
  sha256Hex :: "string \<Rightarrow> string"
  utf8Decode :: "string \<Rightarrow> js_text"
  toUpperCase :: "string \<Rightarrow> string"

text \<open>
  The UTF-8 encoder in front of the cipher (\<^verbatim>\<open>cipher.update(text, 'utf8', ...)\<close>), on the
  code units of the string: a surrogate pair is one code point of four bytes, and an
  unpaired surrogate is replaced by U+FFFD (the bytes EF BF BD).
\<close>

fun utf8Encode :: "js_text \<Rightarrow> nat list" where
  "utf8Encode [] = []"
| "utf8Encode (u # us) =
    (if u < 128 then u # utf8Encode us
     else if u < 2048 then (192 + u div 64) # (128 + u mod 64) # utf8Encode us
     else if 55296 \<le> u \<and> u < 56320 then
       (case us of
          [] \<Rightarrow> [239, 191, 189]
        | l # rest \<Rightarrow>
            if 56320 \<le> l \<and> l < 57344 then
              (let cp = 65536 + (u - 55296) * 1024 + (l - 56320)
               in (240 + cp div 262144) # (128 + cp div 4096 mod 64) #
                  (128 + cp div 64 mod 64) # (128 + cp mod 64) # utf8Encode rest)
            else 239 # 191 # 189 # utf8Encode us)
     else if 56320 \<le> u \<and> u < 57344 then 239 # 191 # 189 # utf8Encode us
     else (224 + u div 4096) # (128 + u div 64 mod 64) # (128 + u mod 64) # utf8Encode us)"

definition utf8Bytes :: "js_text \<Rightarrow> string" where
  "utf8Bytes text = map char_of (utf8Encode text)"

text \<open>
  A string of 16-bit code units in which every surrogate is paired: a high surrogate is
  followed by a low one, and no low surrogate stands alone.
\<close>

fun wellFormed :: "js_text \<Rightarrow> bool" where
  "wellFormed [] = True"
| "wellFormed (u # us) =
    (if 55296 \<le> u \<and> u < 56320 then
       (case us of [] \<Rightarrow> False | l # rest \<Rightarrow> 56320 \<le> l \<and> l < 57344 \<and> wellFormed rest)
     else \<not> (56320 \<le> u \<and> u < 57344) \<and> u < 65536 \<and> wellFormed us)"

text \<open>
  What the theorems below assume of the primitives, each only where it is needed.
  \<^verbatim>\<open>scryptSync\<close> returns a key of the requested length. Under a 32-byte key and a 16-byte
  IV, decryption with the key, IV and tag of the encryption returns the plain text, and
  the tag has the default length of 16 bytes. Decryption succeeds only on what encryption
  produces: the IV is not empty, the tag has one of the lengths GCM admits, and encrypting
  the returned plain text under the same key and IV gives the same cipher text and a
  16-byte tag of which the submitted tag is the beginning. The cipher text is as long as
  the plain text. Decoding base64 inverts encoding, and the empty text decodes to the empty
  buffer. A hex SHA-256 digest has 64 characters. The UTF-8 decoder returns the text
  whose encoding it is given, for every well-formed text. Upper-casing maps the dash to
  itself and nothing else to a dash, character by character, so it commutes with the
  removal of dashes.
\<close>

definition scrypt_length :: "crypto \<Rightarrow> bool" where
  "scrypt_length P = (\<forall>password salt keylen. length (scryptSync P password salt keylen) = keylen)"

definition gcm_correct :: "crypto \<Rightarrow> bool" where
  "gcm_correct P =
    (\<forall>key iv text. length key = 32 \<and> length iv = 16 \<longrightarrow>
       (case gcmEncrypt P key iv text of
          (ct, tag) \<Rightarrow> length tag = 16 \<and> gcmDecrypt P key iv tag ct = Inr text))"

definition gcm_authentic :: "crypto \<Rightarrow> bool" where
  "gcm_authentic P =
    (\<forall>key iv tag ct text. gcmDecrypt P key iv tag ct = Inr text \<longrightarrow>
       iv \<noteq> [] \<and> length tag \<in> {4, 8, 12, 13, 14, 15, 16} \<and>
       (case gcmEncrypt P key iv text of
          (ct', tag') \<Rightarrow> ct' = ct \<and> length tag' = 16 \<and> tag = take (length tag) tag'))"

definition gcm_length :: "crypto \<Rightarrow> bool" where
  "gcm_length P = (\<forall>key iv text. length (fst (gcmEncrypt P key iv text)) = length text)"

definition base64_correct :: "crypto \<Rightarrow> bool" where
  "base64_correct P =
    ((\<forall>b. base64Decode P (base64Encode P b) = b) \<and> base64Decode P [] = [])"

definition sha256_length :: "crypto \<Rightarrow> bool" where
  "sha256_length P = (\<forall>s. length (sha256Hex P s) = 64)"

definition utf8_correct :: "crypto \<Rightarrow> bool" where
  "utf8_correct P = (\<forall>text. wellFormed text \<longrightarrow> utf8Decode P (utf8Bytes text) = text)"

definition upper_keeps_dashes :: "crypto \<Rightarrow> bool" where
  "upper_keeps_dashes P =
    (\<forall>s. toUpperCase P (filter (\<lambda>c. c \<noteq> CHR ''-'') s) =
         filter (\<lambda>c. c \<noteq> CHR ''-'') (toUpperCase P s))"

text \<open>
  \<^verbatim>\<open>crypto.timingSafeEqual(a, b)\<close> throws when the byte lengths differ and otherwise
  answers whether the buffers are equal.
\<close>

definition timingSafeEqual :: "string \<Rightarrow> string \<Rightarrow> js_error + bool" where
  "timingSafeEqual a b =
    (if length a \<noteq> length b then Inl InputLengthMismatch else Inr (a = b))"

text \<open>
  The regular expression class \<^verbatim>\<open>\s\<close> on UTF-8 bytes: the number of bytes of the
  white-space character at the head of the string, 0 when there is none. The class holds
  TAB, LF, VT, FF, CR, SPACE, U+00A0, U+1680, U+2000 to U+200A, U+2028, U+2029, U+202F,
  U+205F, U+3000 and U+FEFF.
\<close>

definition jsWhitespaceLen :: "string \<Rightarrow> nat" where
  "jsWhitespaceLen s =
    (case map of_char (take 3 s) :: nat list of
       [] \<Rightarrow> 0
     | b0 # r \<Rightarrow>
         if b0 = 32 \<or> (9 \<le> b0 \<and> b0 \<le> 13) then 1
         else if b0 = 194 \<and> take 1 r = [160] then 2
         else if b0 = 225 \<and> r = [154, 128] then 3
         else if b0 = 226 \<and>
                 (case r of
                    [b1, b2] \<Rightarrow>
                      (b1 = 128 \<and>
                       ((128 \<le> b2 \<and> b2 \<le> 138) \<or> b2 = 168 \<or> b2 = 169 \<or> b2 = 175)) \<or>
                      (b1 = 129 \<and> b2 = 159)
                  | _ \<Rightarrow> False) then 3
         else if b0 = 227 \<and> r = [128, 128] then 3
         else if b0 = 239 \<and> r = [187, 191] then 3
         else 0)"

text \<open>
  \<^verbatim>\<open>replace(/\s/g, '')\<close> (\<open>dashes = False\<close>) and \<^verbatim>\<open>replace(/[\s-]/g, '')\<close>
  (\<open>dashes = True\<close>).
\<close>

function stripChars :: "bool \<Rightarrow> string \<Rightarrow> string" where
  "stripChars dashes s =
    (if s = [] then []
     else if jsWhitespaceLen s > 0 then stripChars dashes (drop (jsWhitespaceLen s) s)
     else if dashes \<and> hd s = CHR ''-'' then stripChars dashes (tl s)
     else hd s # stripChars dashes (tl s))"
  by pat_completeness auto
termination
  by (relation "measure (\<lambda>(dashes, s). length s)") auto

declare stripChars.simps [simp del]

section \<open>Encryption: \<^verbatim>\<open>getEncryptionKey\<close>, \<^verbatim>\<open>encrypt\<close>, \<^verbatim>\<open>decrypt\<close>\<close>

text \<open>
  \<open>sessionSecret\<close> is \<^verbatim>\<open>global.appConfig?.security?.sessionSecret\<close>; an undefined or empty
  secret falls back to the built-in default.
\<close>

definition getEncryptionKey :: "crypto \<Rightarrow> string option \<Rightarrow> string" where
  "getEncryptionKey P sessionSecret =
    (let secret = (case sessionSecret of
                     None \<Rightarrow> ''jpulse-default-secret-change-me''
                   | Some s \<Rightarrow> if s = [] then ''jpulse-default-secret-change-me'' else s)
     in scryptSync P secret ''mfa-salt'' 32)"

text \<open>
  \<open>iv\<close> is the value of \<^verbatim>\<open>crypto.randomBytes(16)\<close>. The cipher hands its output over as
  base64 text, which \<^verbatim>\<open>Buffer.from(encrypted, 'base64')\<close> decodes again before the three
  parts are joined and encoded.
\<close>

definition encrypt :: "crypto \<Rightarrow> string option \<Rightarrow> string \<Rightarrow> js_text \<Rightarrow> string" where
  "encrypt P sessionSecret iv text =
    (if text = [] then []
     else
       (let key = getEncryptionKey P sessionSecret
        in case gcmEncrypt P key iv (utf8Bytes text) of
             (ct, authTag) \<Rightarrow>
               (let encrypted = base64Encode P ct
                in base64Encode P (iv @ authTag @ base64Decode P encrypted))))"

text \<open>The body of the \<^verbatim>\<open>try\<close> block of \<^verbatim>\<open>decrypt\<close>, with the error it may throw.\<close>

definition decrypt_try :: "crypto \<Rightarrow> string option \<Rightarrow> string \<Rightarrow> js_error + js_text" where
  "decrypt_try P sessionSecret encryptedText =
    (let key = getEncryptionKey P sessionSecret;
         data = base64Decode P encryptedText;
         iv = take 16 data;
         authTag = take 16 (drop 16 data);
         encrypted = drop 32 data
     in case gcmDecrypt P key iv authTag encrypted of
          Inl e \<Rightarrow> Inl e
        | Inr plain \<Rightarrow> Inr (utf8Decode P plain))"

definition decrypt :: "crypto \<Rightarrow> string option \<Rightarrow> string \<Rightarrow> js_text" where
  "decrypt P sessionSecret encryptedText =
    (if encryptedText = [] then []
     else case decrypt_try P sessionSecret encryptedText of
            Inr decrypted \<Rightarrow> decrypted
          | Inl e \<Rightarrow> [])"

text \<open>
  A blob is genuine under the process secret when it is the encoding of a 16-byte IV, the
  tag and the cipher text that the cipher produces for some plain text under the derived
  key and that IV. Every other blob is tampered or malformed.
\<close>

definition genuine :: "crypto \<Rightarrow> string option \<Rightarrow> string \<Rightarrow> bool" where
  "genuine P sessionSecret blob =
    (\<exists>iv plain. length iv = 16 \<and>
       (case gcmEncrypt P (getEncryptionKey P sessionSecret) iv plain of
          (ct, tag) \<Rightarrow> base64Decode P blob = iv @ tag @ ct))"

definition getDecryptedSecret :: "crypto \<Rightarrow> string option \<Rightarrow> user \<Rightarrow> js_text" where
  "getDecryptedSecret P sessionSecret u =
    (if secret (mfa u) = [] then [] else decrypt P sessionSecret (secret (mfa u)))"

section \<open>Backup codes: \<^verbatim>\<open>hashBackupCode\<close>, \<^verbatim>\<open>verifyBackupCode\<close>, \<^verbatim>\<open>useBackupCode\<close>\<close>

definition hashBackupCode :: "crypto \<Rightarrow> string \<Rightarrow> string" where
  "hashBackupCode P code =
    (let normalized = toUpperCase P (filter (\<lambda>c. c \<noteq> CHR ''-'') code)
     in sha256Hex P (normalized @ ''mfa-backup-salt''))"

text \<open>The \<^verbatim>\<open>for\<close> loop of \<^verbatim>\<open>verifyBackupCode\<close>, from index \<open>i\<close> on.\<close>

function verifyFrom :: "string \<Rightarrow> string list \<Rightarrow> nat \<Rightarrow> js_error + int" where
  "verifyFrom inputHash hashes i =
    (if i < length hashes then
       (case timingSafeEqual inputHash (hashes ! i) of
          Inl e \<Rightarrow> Inl e
        | Inr eq \<Rightarrow> if eq then Inr (int i) else verifyFrom inputHash hashes (i + 1))
     else Inr (- 1))"
  by pat_completeness auto
termination
  by (relation "measure (\<lambda>(inputHash, hashes, i). length hashes - i)") auto

declare verifyFrom.simps [simp del]

definition verifyBackupCode :: "crypto \<Rightarrow> string \<Rightarrow> string list \<Rightarrow> js_error + int" where
  "verifyBackupCode P code hashes =
    (let inputHash = hashBackupCode P code in verifyFrom inputHash hashes 0)"

text \<open>\<^verbatim>\<open>hashes.splice(index, 1)\<close> for an index inside the array.\<close>

definition splice1 :: "'a list \<Rightarrow> nat \<Rightarrow> 'a list" where
  "splice1 xs index = take index xs @ drop (index + 1) xs"

definition useBackupCode ::
  "crypto \<Rightarrow> timestamp \<Rightarrow> string \<Rightarrow> string \<Rightarrow> world \<Rightarrow> js_error + (bool \<times> world)" where
  "useBackupCode P now userId code w =
    (case w of
       None \<Rightarrow> Inr (False, w)
     | Some st \<Rightarrow>
         (let hashes = (case st userId of None \<Rightarrow> [] | Some u \<Rightarrow> backupCodes (mfa u))
          in case verifyBackupCode P code hashes of
               Inl e \<Rightarrow> Inl e
             | Inr index \<Rightarrow>
                 if index = - 1 then Inr (False, w)
                 else
                   Inr (True,
                     Some (updateById userId
                       (\<lambda>m. m\<lparr>backupCodes := splice1 hashes (nat index),
                               lastUsedAt := Some now, failedAttempts := 0,
                               lockedUntil := None\<rparr>) st))))"

definition disableMfa :: "string \<Rightarrow> world \<Rightarrow> js_error + world" where
  "disableMfa userId w =
    (case w of
       None \<Rightarrow> Inl UserModelNotInitialized
     | Some st \<Rightarrow>
         Inr (Some (updateById userId
           (\<lambda>m. m\<lparr>enabled := False, secret := [], backupCodes := [], enrolledAt := None,
                   failedAttempts := 0, lockedUntil := None\<rparr>) st)))"

text \<open>The stored \<^verbatim>\<open>mfa\<close> sub-document of a user, for reading the store in statements.\<close>

definition storedMfa :: "string \<Rightarrow> world \<Rightarrow> mfa_profile option" where
  "storedMfa userId w =
    (case w of None \<Rightarrow> None | Some st \<Rightarrow> map_option mfa (st userId))"

section \<open>Controller: \<^verbatim>\<open>onAuthValidateStep\<close>, \<^verbatim>\<open>apiDisable\<close>\<close>

text \<open>
  The messages that \<^verbatim>\<open>onAuthValidateStep\<close> writes to \<^verbatim>\<open>context.error\<close>, in the order of the
  source: \<^verbatim>\<open>'MFA code required'\<close>, \<^verbatim>\<open>'Backup code required'\<close>, \<^verbatim>\<open>'User not found'\<close>,
  \<^verbatim>\<open>'Account is temporarily locked. Try again in N minute(s).'\<close>,
  \<^verbatim>\<open>'Invalid or already used backup code'\<close>, \<^verbatim>\<open>'MFA not configured'\<close>,
  \<^verbatim>\<open>'Invalid MFA code'\<close>, and \<^verbatim>\<open>'MFA verification failed'\<close> of the \<^verbatim>\<open>catch\<close> block.
\<close>

datatype step_error =
    CodeRequired
  | BackupCodeRequired
  | UserNotFound
  | AccountLocked "int option"
  | InvalidBackupCode
  | MfaNotConfigured
  | InvalidMfaCode
  | VerificationFailed

record auth_context =
  step :: string
  stepData_code :: "string option"
  pending_userId :: string
  ctx_user :: "user option"
  valid :: "bool option"
  error :: "step_error option"

text \<open>
  \<open>totpVerify token secret\<close> is \<^verbatim>\<open>authenticator.verify({token, secret})\<close> of \<^verbatim>\<open>otplib\<close> at
  the time of the call. A missing code is \<^verbatim>\<open>!code\<close>: undefined or the empty string. The
  result is \<open>None\<close> only where that of \<^verbatim>\<open>recordFailure\<close> is.
\<close>

definition onAuthValidateStep ::
  "crypto \<Rightarrow> (string \<Rightarrow> js_text \<Rightarrow> bool) \<Rightarrow> config \<Rightarrow> string option \<Rightarrow> timestamp \<Rightarrow>
   auth_context \<Rightarrow> world \<Rightarrow> (auth_context \<times> world) option" where
  "onAuthValidateStep P totpVerify cfg sessionSecret now ctx w =
    (if step ctx \<noteq> ''mfa'' \<and> step ctx \<noteq> ''mfa-backup'' then Some (ctx, w)
     else
       (case (if stepData_code ctx = Some [] then None else stepData_code ctx) of
          None \<Rightarrow>
            Some (ctx\<lparr>valid := Some False,
                      error := Some (if step ctx = ''mfa'' then CodeRequired
                                     else BackupCodeRequired)\<rparr>, w)
        | Some code \<Rightarrow>
            (case ctx_user ctx of
               None \<Rightarrow> Some (ctx\<lparr>valid := Some False, error := Some UserNotFound\<rparr>, w)
             | Some u \<Rightarrow>
                 (let lockStatus = isLocked now u
                  in if ls_locked lockStatus then
                       Some (ctx\<lparr>valid := Some False,
                                 error := Some (AccountLocked (ls_remainingMinutes lockStatus))\<rparr>,
                             w)
                     else if step ctx = ''mfa-backup'' then
                       (let cleanCode = toUpperCase P (stripChars True code)
                        in case useBackupCode P now (pending_userId ctx) cleanCode w of
                             Inl e \<Rightarrow>
                               Some (ctx\<lparr>valid := Some False,
                                         error := Some VerificationFailed\<rparr>, w)
                           | Inr (isValid, w1) \<Rightarrow>
                               if isValid then
                                 Some (ctx\<lparr>valid := Some True\<rparr>,
                                       recordSuccess now (user_id u) w1)
                               else
                                 map_option
                                   (\<lambda>(r, w2). (ctx\<lparr>valid := Some False,
                                                     error := Some InvalidBackupCode\<rparr>, w2))
                                   (recordFailure cfg now (user_id u) w1))
                     else
                       (let secret = getDecryptedSecret P sessionSecret u
                        in if secret = [] then
                             Some (ctx\<lparr>valid := Some False,
                                       error := Some MfaNotConfigured\<rparr>, w)
                           else
                             (let cleanCode = stripChars False code;
                                  isValid = totpVerify cleanCode secret
                              in if isValid then
                                   Some (ctx\<lparr>valid := Some True\<rparr>,
                                         recordSuccess now (user_id u) w)
                                 else
                                   map_option
                                     (\<lambda>(r, w2). (ctx\<lparr>valid := Some False,
                                                       error := Some InvalidMfaCode\<rparr>, w2))
                                     (recordFailure cfg now (user_id u) w)))))))"

text \<open>
  The responses of \<^verbatim>\<open>apiDisable\<close>: 401 \<^verbatim>\<open>'Not authenticated'\<close>, 400
  \<^verbatim>\<open>'Password is required to disable MFA'\<close>, 400
  \<^verbatim>\<open>'MFA is required by policy and cannot be disabled'\<close>, 400 \<^verbatim>\<open>'Invalid password'\<close>, 500
  \<^verbatim>\<open>'Failed to disable MFA'\<close> of the \<^verbatim>\<open>catch\<close> block, and the success response.
  \<open>verifyPassword\<close> is \<^verbatim>\<open>global.UserModel.verifyPassword\<close>; reading it from an undefined
  \<^verbatim>\<open>global.UserModel\<close> throws.
\<close>

datatype api_response =
    NotAuthenticated
  | PasswordRequired
  | PolicyForbidsDisable
  | InvalidPassword
  | DisableFailed
  | MfaDisabled

definition apiDisable ::
  "(string \<Rightarrow> string \<Rightarrow> bool) \<Rightarrow> config \<Rightarrow> timestamp \<Rightarrow> user option \<Rightarrow> string option \<Rightarrow>
   world \<Rightarrow> api_response \<times> world" where
  "apiDisable verifyPassword cfg now reqUser password w =
    (case reqUser of
       None \<Rightarrow> (NotAuthenticated, w)
     | Some u \<Rightarrow>
         (case (if password = Some [] then None else password) of
            None \<Rightarrow> (PasswordRequired, w)
          | Some pw \<Rightarrow>
              (let mfaRequired = isMfaRequired cfg now u
               in if required mfaRequired \<and> reason mfaRequired \<noteq> Enabled then
                    (PolicyForbidsDisable, w)
                  else
                    (case w of
                       None \<Rightarrow> (DisableFailed, w)
                     | Some st \<Rightarrow>
                         if \<not> verifyPassword pw (passwordHash u) then (InvalidPassword, w)
                         else
                           (case disableMfa (user_id u) w of
                              Inl e \<Rightarrow> (DisableFailed, w)
                            | Inr w' \<Rightarrow> (MfaDisabled, w'))))))"

section \<open>Variants of a backup code\<close>

text \<open>
  The codes that differ from a given code only in letter case or in the placement of
  dashes: the code itself; a variant with a dash put in or taken out anywhere; a variant
  with letters changed in case, that is, replaced by a text with the same upper-casing.
\<close>

inductive dashCaseVariant :: "crypto \<Rightarrow> string \<Rightarrow> string \<Rightarrow> bool" for P :: crypto and code :: string
  where
    same: "dashCaseVariant P code code"
  | dash_in: "dashCaseVariant P code (a @ b) \<Longrightarrow> dashCaseVariant P code (a @ CHR ''-'' # b)"
  | dash_out: "dashCaseVariant P code (a @ CHR ''-'' # b) \<Longrightarrow> dashCaseVariant P code (a @ b)"
  | recase: "dashCaseVariant P code v \<Longrightarrow> toUpperCase P v' = toUpperCase P v \<Longrightarrow>
             dashCaseVariant P code v'"

text \<open>
  The normalisation in the words of the specification (section 4.3): strip the
  non-alphanumeric characters, uppercase.
\<close>

definition isAlnum :: "char \<Rightarrow> bool" where
  "isAlnum c =
    (let n = (of_char c :: nat)
     in (48 \<le> n \<and> n \<le> 57) \<or> (65 \<le> n \<and> n \<le> 90) \<or> (97 \<le> n \<and> n \<le> 122))"

definition normalize_spec :: "crypto \<Rightarrow> string \<Rightarrow> string" where
  "normalize_spec P code = toUpperCase P (filter isAlnum code)"

section \<open>Sample data\<close>

text \<open>
  A stand-in for the platform primitives at which the theorems are instantiated. It
  satisfies the assumptions listed above, rejects an empty IV, a tag of a length that GCM
  does not admit and a tag that does not verify, upper-cases the ASCII letters, decodes
  the UTF-8 sequences of one to four bytes, and is no cryptography.
\<close>

definition asciiUpperChar :: "char \<Rightarrow> char" where
  "asciiUpperChar c =
    (let n = (of_char c :: nat) in if 97 \<le> n \<and> n \<le> 122 then char_of (n - 32) else c)"

definition demo_tag :: "string \<Rightarrow> string" where
  "demo_tag ct = take 16 (ct @ replicate 16 (CHR ''t''))"

fun demo_utf8Decode :: "nat list \<Rightarrow> js_text" where
  "demo_utf8Decode [] = []"
| "demo_utf8Decode (b0 # bs) =
    (if b0 < 128 then b0 # demo_utf8Decode bs
     else if 194 \<le> b0 \<and> b0 < 224 then
       (case bs of
          b1 # r \<Rightarrow>
            if 128 \<le> b1 \<and> b1 < 192
            then ((b0 - 192) * 64 + (b1 - 128)) # demo_utf8Decode r
            else 65533 # demo_utf8Decode bs
        | _ \<Rightarrow> 65533 # demo_utf8Decode bs)
     else if 224 \<le> b0 \<and> b0 < 240 then
       (case bs of
          b1 # b2 # r \<Rightarrow>
            if 128 \<le> b1 \<and> b1 < 192 \<and> 128 \<le> b2 \<and> b2 < 192
            then ((b0 - 224) * 4096 + (b1 - 128) * 64 + (b2 - 128)) # demo_utf8Decode r
            else 65533 # demo_utf8Decode bs
        | _ \<Rightarrow> 65533 # demo_utf8Decode bs)
     else if 240 \<le> b0 \<and> b0 < 245 then
       (case bs of
          b1 # b2 # b3 # r \<Rightarrow>
            if 128 \<le> b1 \<and> b1 < 192 \<and> 128 \<le> b2 \<and> b2 < 192 \<and> 128 \<le> b3 \<and> b3 < 192
            then
              (let c = (b0 - 240) * 262144 + (b1 - 128) * 4096 + (b2 - 128) * 64 + (b3 - 128)
                       - 65536
               in (55296 + c div 1024) # (56320 + c mod 1024) # demo_utf8Decode r)
            else 65533 # demo_utf8Decode bs
        | _ \<Rightarrow> 65533 # demo_utf8Decode bs)
     else 65533 # demo_utf8Decode bs)"

definition demo_crypto :: crypto where
  "demo_crypto =
    \<lparr>scryptSync = (\<lambda>secret salt n. take n (secret @ salt @ replicate n (CHR ''0''))),
     gcmEncrypt = (\<lambda>key iv text. (rev text, demo_tag (rev text))),
     gcmDecrypt = (\<lambda>key iv tag ct.
        if iv = [] then Inl InvalidIv
        else if length tag \<notin> {4, 8, 12, 13, 14, 15, 16} then Inl InvalidAuthTag
        else if tag \<noteq> take (length tag) (demo_tag ct) then Inl AuthFailed
        else Inr (rev ct)),
     base64Encode = (\<lambda>b. b),
     base64Decode = (\<lambda>s. s),
     sha256Hex = (\<lambda>s. take 64 (s @ replicate 64 (CHR ''0''))),
     utf8Decode = (\<lambda>bytes. demo_utf8Decode (map of_char bytes)),
     toUpperCase = map asciiUpperChar\<rparr>"

text \<open>
  A user with MFA enabled who holds the role \<open>root\<close>, with an encrypted TOTP secret and
  the hashes of the backup codes \<^verbatim>\<open>A1B2-C3D4\<close> and \<^verbatim>\<open>FFFF-0000\<close>; the same user with a
  stored secret that does not decrypt, and with a failure counter of \<open>2 ^ 53\<close>; the store
  that holds the user under the id \<open>u1\<close>.
\<close>

definition demo_secret :: js_text where
  "demo_secret = map of_char ''JBSWY3DPEHPK3PXP''"

definition alice :: user where
  "alice =
    \<lparr>user_id = ''u1'', username = ''alice'', roles = Some [''root''],
     passwordHash = ''pw-hash'',
     mfa = \<lparr>enabled = True,
            secret = encrypt demo_crypto None ''0123456789abcdef'' demo_secret,
            backupCodes = [hashBackupCode demo_crypto ''A1B2-C3D4'',
                           hashBackupCode demo_crypto ''FFFF-0000''],
            enrolledAt = Some 0, lastUsedAt = None, failedAttempts = 0,
            lockedUntil = None, gracePeriodUntil = None\<rparr>\<rparr>"

definition alice_bad_secret :: user where
  "alice_bad_secret = alice\<lparr>mfa := (mfa alice)\<lparr>secret := ''blob''\<rparr>\<rparr>"

definition alice_saturated :: user where
  "alice_saturated = alice\<lparr>mfa := (mfa alice)\<lparr>failedAttempts := 9007199254740992\<rparr>\<rparr>"

definition store_of :: "user \<Rightarrow> world" where
  "store_of u = Some [''u1'' \<mapsto> u]"

text \<open>
  The login step of that user: the kind of step and the submitted code vary. The policy
  \<open>required-for-roles\<close> with the default \<open>requiredRoles = ['root']\<close>. A password check that
  accepts the password \<^verbatim>\<open>correct horse\<close> for the stored hash, and a TOTP check that accepts
  the token \<^verbatim>\<open>123456\<close>. The code \<^verbatim>\<open>123\<close>, a no-break space (U+00A0), \<^verbatim>\<open>456\<close>.
\<close>

definition login_step :: "string \<Rightarrow> string option \<Rightarrow> user \<Rightarrow> auth_context" where
  "login_step kind code u =
    \<lparr>step = kind, stepData_code = code, pending_userId = ''u1'', ctx_user = Some u,
     valid = None, error = None\<rparr>"

definition roles_policy :: config where
  "roles_policy = getDefaultConfig\<lparr>mfaPolicy := ''required-for-roles''\<rparr>"

definition demo_verifyPassword :: "string \<Rightarrow> string \<Rightarrow> bool" where
  "demo_verifyPassword password hash = (password = ''correct horse'' \<and> hash = ''pw-hash'')"

definition demo_totpVerify :: "string \<Rightarrow> js_text \<Rightarrow> bool" where
  "demo_totpVerify token key = (token = ''123456'' \<and> key = demo_secret)"

definition code_with_nbsp :: string where
  "code_with_nbsp = ''123'' @ [CHR 0xC2, CHR 0xA0] @ ''456''"

section \<open>Facts about the sample data\<close>

lemma alice_fields:
  "user_id alice = ''u1''" "roles alice = Some [''root'']" "passwordHash alice = ''pw-hash''"
  "enabled (mfa alice)" "failedAttempts (mfa alice) = 0" "lockedUntil (mfa alice) = None"
  "gracePeriodUntil (mfa alice) = None"
  "backupCodes (mfa alice) =
     [hashBackupCode demo_crypto ''A1B2-C3D4'', hashBackupCode demo_crypto ''FFFF-0000'']"
  by (simp_all add: alice_def)

lemma demo_crypto_scrypt_length: "scrypt_length demo_crypto"
  by (auto simp: scrypt_length_def demo_crypto_def)

lemma demo_tag_length: "length (demo_tag ct) = 16"
  by (auto simp: demo_tag_def)

lemma demo_crypto_gcm_correct: "gcm_correct demo_crypto"
  by (auto simp: gcm_correct_def demo_crypto_def demo_tag_length)

lemma demo_crypto_gcm_authentic: "gcm_authentic demo_crypto"
  by (auto simp: gcm_authentic_def demo_crypto_def demo_tag_length split: if_splits)

lemma demo_crypto_gcm_length: "gcm_length demo_crypto"
  by (simp add: gcm_length_def demo_crypto_def)

lemma demo_crypto_base64_correct: "base64_correct demo_crypto"
  by (simp add: base64_correct_def demo_crypto_def)

lemma demo_crypto_sha256_length: "sha256_length demo_crypto"
  by (auto simp: sha256_length_def demo_crypto_def)

lemma dec2_gen:
  "194 \<le> b0 \<Longrightarrow> b0 < 224 \<Longrightarrow> 128 \<le> b1 \<Longrightarrow> b1 < 192 \<Longrightarrow>
   demo_utf8Decode (b0 # b1 # bs) = ((b0 - 192) * 64 + (b1 - 128)) # demo_utf8Decode bs"
  by simp

lemma dec3_gen:
  "224 \<le> b0 \<Longrightarrow> b0 < 240 \<Longrightarrow> 128 \<le> b1 \<Longrightarrow> b1 < 192 \<Longrightarrow> 128 \<le> b2 \<Longrightarrow> b2 < 192 \<Longrightarrow>
   demo_utf8Decode (b0 # b1 # b2 # bs) =
     ((b0 - 224) * 4096 + (b1 - 128) * 64 + (b2 - 128)) # demo_utf8Decode bs"
  by simp

lemma dec4_gen:
  "240 \<le> b0 \<Longrightarrow> b0 < 245 \<Longrightarrow> 128 \<le> b1 \<Longrightarrow> b1 < 192 \<Longrightarrow> 128 \<le> b2 \<Longrightarrow> b2 < 192 \<Longrightarrow>
   128 \<le> b3 \<Longrightarrow> b3 < 192 \<Longrightarrow>
   demo_utf8Decode (b0 # b1 # b2 # b3 # bs) =
     (55296 + ((b0 - 240) * 262144 + (b1 - 128) * 4096 + (b2 - 128) * 64 + (b3 - 128) - 65536)
        div 1024) #
     (56320 + ((b0 - 240) * 262144 + (b1 - 128) * 4096 + (b2 - 128) * 64 + (b3 - 128) - 65536)
        mod 1024) # demo_utf8Decode bs"
  by (simp add: Let_def)

lemma split3: "(u::nat) div 4096 * 4096 + u div 64 mod 64 * 64 + u mod 64 = u"
proof -
  have d: "u div 64 div 64 = u div 4096" by (simp add: div_mult2_eq [symmetric])
  have "u div 64 = u div 4096 * 64 + u div 64 mod 64"
    using div_mult_mod_eq [of "u div 64" 64] by (simp add: d)
  then have "u div 64 * 64 = u div 4096 * 4096 + u div 64 mod 64 * 64" by simp
  moreover have "u = u div 64 * 64 + u mod 64" by simp
  ultimately show ?thesis by simp
qed

lemma split4:
  "(c::nat) div 262144 * 262144 + c div 4096 mod 64 * 4096 + c div 64 mod 64 * 64 + c mod 64 = c"
proof -
  have d: "c div 4096 div 64 = c div 262144" by (simp add: div_mult2_eq [symmetric])
  have "c div 4096 = c div 262144 * 64 + c div 4096 mod 64"
    using div_mult_mod_eq [of "c div 4096" 64] by (simp add: d)
  then have "c div 4096 * 4096 = c div 262144 * 262144 + c div 4096 mod 64 * 4096" by simp
  with split3 [of c] show ?thesis by simp
qed

lemma enc_dec2:
  assumes "128 \<le> u" "u < 2048"
  shows "demo_utf8Decode ((192 + u div 64) # (128 + u mod 64) # bs) = u # demo_utf8Decode bs"
proof -
  have "194 \<le> 192 + u div 64" "192 + u div 64 < 224" using assms by arith+
  moreover have "128 \<le> 128 + u mod 64" "128 + u mod 64 < 192" by simp_all
  ultimately have "demo_utf8Decode ((192 + u div 64) # (128 + u mod 64) # bs) =
      ((192 + u div 64 - 192) * 64 + (128 + u mod 64 - 128)) # demo_utf8Decode bs"
    by (rule dec2_gen)
  then show ?thesis by simp
qed

lemma enc_dec3:
  assumes "2048 \<le> u" "u < 65536"
  shows "demo_utf8Decode ((224 + u div 4096) # (128 + u div 64 mod 64) # (128 + u mod 64) # bs)
         = u # demo_utf8Decode bs"
proof -
  have "224 \<le> 224 + u div 4096" by simp
  moreover have "224 + u div 4096 < 240" using assms by arith
  moreover have "128 \<le> 128 + u div 64 mod 64" "128 + u div 64 mod 64 < 192"
    "128 \<le> 128 + u mod 64" "128 + u mod 64 < 192" by simp_all
  ultimately have "demo_utf8Decode
      ((224 + u div 4096) # (128 + u div 64 mod 64) # (128 + u mod 64) # bs) =
      ((224 + u div 4096 - 224) * 4096 + (128 + u div 64 mod 64 - 128) * 64 +
       (128 + u mod 64 - 128)) # demo_utf8Decode bs"
    by (rule dec3_gen)
  then show ?thesis by (simp add: split3)
qed

lemma enc_dec4:
  assumes "h < 1024" "lo < 1024" and c: "c = 65536 + h * 1024 + lo"
  shows "demo_utf8Decode ((240 + c div 262144) # (128 + c div 4096 mod 64) #
           (128 + c div 64 mod 64) # (128 + c mod 64) # bs)
         = (55296 + h) # (56320 + lo) # demo_utf8Decode bs"
proof -
  have "c < 1114112" using assms by simp
  then have lt: "240 + c div 262144 < 245" by arith
  have "240 \<le> 240 + c div 262144" by simp
  moreover note lt
  moreover have "128 \<le> 128 + c div 4096 mod 64" "128 + c div 4096 mod 64 < 192"
    "128 \<le> 128 + c div 64 mod 64" "128 + c div 64 mod 64 < 192"
    "128 \<le> 128 + c mod 64" "128 + c mod 64 < 192" by simp_all
  ultimately have "demo_utf8Decode ((240 + c div 262144) # (128 + c div 4096 mod 64) #
           (128 + c div 64 mod 64) # (128 + c mod 64) # bs) =
     (55296 + ((240 + c div 262144 - 240) * 262144 + (128 + c div 4096 mod 64 - 128) * 4096 +
        (128 + c div 64 mod 64 - 128) * 64 + (128 + c mod 64 - 128) - 65536) div 1024) #
     (56320 + ((240 + c div 262144 - 240) * 262144 + (128 + c div 4096 mod 64 - 128) * 4096 +
        (128 + c div 64 mod 64 - 128) * 64 + (128 + c mod 64 - 128) - 65536) mod 1024) #
     demo_utf8Decode bs"
    by (rule dec4_gen)
  moreover have "(240 + c div 262144 - 240) * 262144 + (128 + c div 4096 mod 64 - 128) * 4096 +
        (128 + c div 64 mod 64 - 128) * 64 + (128 + c mod 64 - 128) = c"
    using split4 [of c] by simp
  moreover have "c - 65536 = h * 1024 + lo" using c by simp
  moreover have "(h * 1024 + lo) div 1024 = h" "(h * 1024 + lo) mod 1024 = lo"
    using assms by simp_all
  ultimately show ?thesis by simp
qed

lemma utf8_roundtrip: "wellFormed x \<Longrightarrow> demo_utf8Decode (utf8Encode x) = x"
proof (induction x rule: wellFormed.induct)
  case 1
  show ?case by simp
next
  case (2 u us)
  show ?case
  proof (cases "55296 \<le> u \<and> u < 56320")
    case True
    with "2.prems" obtain l rest where us: "us = l # rest"
      and l: "56320 \<le> l" "l < 57344" and wf: "wellFormed rest"
      by (cases us) auto
    from "2.IH"(1) [OF True us] wf have IH: "demo_utf8Decode (utf8Encode rest) = rest" by simp
    define h lo c where "h = u - 55296" and "lo = l - 56320" and "c = 65536 + h * 1024 + lo"
    have hl: "h < 1024" "lo < 1024" using True l unfolding h_def lo_def by arith+
    have u: "u = 55296 + h" "l = 56320 + lo" using True l unfolding h_def lo_def by arith+
    have enc: "utf8Encode (u # us) = (240 + c div 262144) # (128 + c div 4096 mod 64) #
           (128 + c div 64 mod 64) # (128 + c mod 64) # utf8Encode rest"
      using True l by (simp add: us Let_def c_def h_def lo_def)
    show ?thesis
      unfolding enc using enc_dec4 [OF hl c_def, of "utf8Encode rest"] IH u us by simp
  next
    case False
    with "2.prems" have nl: "\<not> (56320 \<le> u \<and> u < 57344)" and lt: "u < 65536"
      and wf: "wellFormed us" by auto
    from "2.IH"(2) [OF False] wf have IH: "demo_utf8Decode (utf8Encode us) = us" by simp
    consider "u < 128" | "128 \<le> u" "u < 2048" | "2048 \<le> u" by linarith
    then show ?thesis
    proof cases
      case 1
      then show ?thesis using IH by simp
    next
      case 2
      then have "utf8Encode (u # us) = (192 + u div 64) # (128 + u mod 64) # utf8Encode us"
        by simp
      with enc_dec2 [OF 2, of "utf8Encode us"] IH show ?thesis by simp
    next
      case 3
      then have e: "\<not> u < 128" "\<not> u < 2048" by simp_all
      have "utf8Encode (u # us) =
          (224 + u div 4096) # (128 + u div 64 mod 64) # (128 + u mod 64) # utf8Encode us"
        using e False nl by (simp only: utf8Encode.simps if_False)
      with enc_dec3 [OF 3 lt, of "utf8Encode us"] IH show ?thesis by simp
    qed
  qed
qed

lemma utf8Encode_bytes: "wellFormed x \<Longrightarrow> \<forall>b\<in>set (utf8Encode x). b < 256"
proof (induction x rule: wellFormed.induct)
  case 1
  show ?case by simp
next
  case (2 u us)
  show ?case
  proof (cases "55296 \<le> u \<and> u < 56320")
    case True
    with "2.prems" obtain l rest where us: "us = l # rest"
      and l: "56320 \<le> l" "l < 57344" and wf: "wellFormed rest"
      by (cases us) auto
    from "2.IH"(1) [OF True us] wf have IH: "\<forall>b\<in>set (utf8Encode rest). b < 256" by simp
    define c where "c = 65536 + (u - 55296) * 1024 + (l - 56320)"
    have "u - 55296 \<le> 1023" "l - 56320 \<le> 1023" using True l by arith+
    moreover from this have "(u - 55296) * 1024 \<le> 1023 * 1024" by (intro mult_le_mono1)
    ultimately have "c < 1114112" unfolding c_def by arith
    then have "240 + c div 262144 < 256" by arith
    moreover have "128 + c div 4096 mod 64 < 256" "128 + c div 64 mod 64 < 256"
      "128 + c mod 64 < 256"
      using mod_less_divisor [of 64 "c div 4096"] mod_less_divisor [of 64 "c div 64"]
        mod_less_divisor [of 64 c] by simp_all
    moreover have "utf8Encode (u # us) = (240 + c div 262144) # (128 + c div 4096 mod 64) #
           (128 + c div 64 mod 64) # (128 + c mod 64) # utf8Encode rest"
      using True l by (simp add: us Let_def c_def)
    ultimately show ?thesis using IH by simp
  next
    case False
    with "2.prems" have nl: "\<not> (56320 \<le> u \<and> u < 57344)" and lt: "u < 65536"
      and wf: "wellFormed us" by auto
    from "2.IH"(2) [OF False] wf have IH: "\<forall>b\<in>set (utf8Encode us). b < 256" by simp
    have m: "128 + u mod 64 < 256" "128 + u div 64 mod 64 < 256"
      using mod_less_divisor [of 64 u] mod_less_divisor [of 64 "u div 64"] by simp_all
    consider "u < 128" | "128 \<le> u" "u < 2048" | "2048 \<le> u" by linarith
    then show ?thesis
    proof cases
      case 1
      then show ?thesis using IH by simp
    next
      case 2
      then have "192 + u div 64 < 256" by arith
      with 2 m IH show ?thesis by simp
    next
      case 3
      then have e: "\<not> u < 128" "\<not> u < 2048" by simp_all
      have enc: "utf8Encode (u # us) =
          (224 + u div 4096) # (128 + u div 64 mod 64) # (128 + u mod 64) # utf8Encode us"
        using e False nl by (simp only: utf8Encode.simps if_False)
      have "224 + u div 4096 < 256" using lt by arith
      with m IH show ?thesis unfolding enc by simp
    qed
  qed
qed

lemma demo_crypto_utf8_correct: "utf8_correct demo_crypto"
proof -
  have "map of_char (map char_of (utf8Encode x) :: string) = utf8Encode x"
    if "wellFormed x" for x
    using utf8Encode_bytes [OF that] by (simp add: map_idI of_char_of)
  then show ?thesis
    by (simp add: utf8_correct_def demo_crypto_def utf8Bytes_def utf8_roundtrip)
qed

lemma asciiUpperChar_dash: "asciiUpperChar c = CHR ''-'' \<longleftrightarrow> c = CHR ''-''"
proof
  assume h: "asciiUpperChar c = CHR ''-''"
  show "c = CHR ''-''"
  proof (cases "97 \<le> (of_char c :: nat) \<and> (of_char c :: nat) \<le> 122")
    case True
    then have lt: "(of_char c :: nat) - 32 < 256" by arith
    have "(of_char (asciiUpperChar c) :: nat) = of_char c - 32"
      using True lt by (simp add: asciiUpperChar_def Let_def of_char_of)
    with h have "(of_char c :: nat) - 32 = 45" by simp
    with True have False by arith
    then show ?thesis ..
  next
    case False
    with h show ?thesis by (simp add: asciiUpperChar_def Let_def)
  qed
next
  assume "c = CHR ''-''"
  then show "asciiUpperChar c = CHR ''-''" by (simp add: asciiUpperChar_def)
qed

lemma demo_crypto_upper_keeps_dashes: "upper_keeps_dashes demo_crypto"
proof -
  have "map asciiUpperChar (filter (\<lambda>c. c \<noteq> CHR ''-'') s) =
        filter (\<lambda>c. c \<noteq> CHR ''-'') (map asciiUpperChar s)" for s
    by (induction s) (simp_all add: asciiUpperChar_dash)
  then show ?thesis by (simp add: upper_keeps_dashes_def demo_crypto_def)
qed

section \<open>Policy decision\<close>




section \<open>Lockout\<close>

lemma roundToDouble_exact: "\<bar>n\<bar> \<le> 2 ^ 53 \<Longrightarrow> roundToDouble n = n"
  by (simp add: roundToDouble_def)

lemma roundToDouble_saturated: "roundToDouble (9007199254740992 + 1) = 9007199254740992"
  by code_simp

lemma lock_time_exact:
  assumes "\<bar>d\<bar> \<le> 100000000000" "\<bar>t + d * 60 * 1000\<bar> \<le> 8640000000000000"
  shows "newDate (jsAdd t (jsMul (jsMul d 60) 1000)) = Some (t + d * 60 * 1000)"
proof -
  have 1: "jsMul d 60 = d * 60"
    using assms(1) by (simp add: jsMul_def roundToDouble_exact)
  have 2: "jsMul (d * 60) 1000 = d * 60 * 1000"
    using assms(1) by (simp add: jsMul_def roundToDouble_exact)
  have 3: "jsAdd t (d * 60 * 1000) = t + d * 60 * 1000"
    using assms(2) by (simp add: jsAdd_def roundToDouble_exact)
  show ?thesis unfolding 1 2 3 newDate_def using assms(2) by simp
qed

lemma recordFailure_Some:
  assumes "st uid = Some u"
    and "- (2 ^ 53) \<le> failedAttempts (mfa u) + 1" "failedAttempts (mfa u) + 1 \<le> 2 ^ 53"
    and "\<bar>lockoutDuration cfg\<bar> \<le> 100000000000"
    and "maxFailedAttempts cfg \<le> failedAttempts (mfa u) + 1 \<longrightarrow>
         \<bar>t + lockoutDuration cfg * 60 * 1000\<bar> \<le> 8640000000000000"
  shows "recordFailure cfg t uid (Some st) =
   Some
    (\<lparr>rf_locked = (maxFailedAttempts cfg \<le> failedAttempts (mfa u) + 1),
      rf_lockedUntil = (if maxFailedAttempts cfg \<le> failedAttempts (mfa u) + 1
                        then Some (t + lockoutDuration cfg * 60 * 1000) else None),
      rf_attempts = failedAttempts (mfa u) + 1\<rparr>,
     Some (st(uid \<mapsto> u\<lparr>mfa := (mfa u)\<lparr>failedAttempts := failedAttempts (mfa u) + 1,
        lockedUntil := (if maxFailedAttempts cfg \<le> failedAttempts (mfa u) + 1
                        then Some (t + lockoutDuration cfg * 60 * 1000)
                        else lockedUntil (mfa u))\<rparr>\<rparr>)))"
proof -
  have a: "jsAdd (failedAttempts (mfa u)) 1 = failedAttempts (mfa u) + 1"
    using assms(2,3) by (simp add: jsAdd_def roundToDouble_exact)
  show ?thesis
  proof (cases "maxFailedAttempts cfg \<le> failedAttempts (mfa u) + 1")
    case True
    with assms(5) have "\<bar>t + lockoutDuration cfg * 60 * 1000\<bar> \<le> 8640000000000000" by simp
    from lock_time_exact [OF assms(4) this] True assms(1) show ?thesis
      by (simp add: recordFailure_def updateById_def a Let_def)
  next
    case False
    with assms(1) show ?thesis
      by (simp add: recordFailure_def updateById_def a Let_def)
  qed
qed

lemma consecutiveFailures_Some:
  "st uid = Some u \<Longrightarrow> - (2 ^ 53) \<le> failedAttempts (mfa u) + 1 \<Longrightarrow>
   failedAttempts (mfa u) + int (length ts) \<le> 2 ^ 53 \<Longrightarrow>
   \<bar>lockoutDuration cfg\<bar> \<le> 100000000000 \<Longrightarrow>
   \<forall>i<length ts. maxFailedAttempts cfg \<le> failedAttempts (mfa u) + 1 + int i \<longrightarrow>
      \<bar>ts ! i + lockoutDuration cfg * 60 * 1000\<bar> \<le> 8640000000000000 \<Longrightarrow>
   \<exists>rs st' u'. consecutiveFailures cfg ts uid (Some st) = Some (rs, Some st') \<and>
      st' uid = Some u' \<and>
      failedAttempts (mfa u') = failedAttempts (mfa u) + int (length ts) \<and>
      map rf_locked rs =
        map (\<lambda>i. maxFailedAttempts cfg \<le> failedAttempts (mfa u) + 1 + int i) [0..<length ts] \<and>
      map rf_lockedUntil rs =
        map (\<lambda>i. if maxFailedAttempts cfg \<le> failedAttempts (mfa u) + 1 + int i
                  then Some (ts ! i + lockoutDuration cfg * 60 * 1000) else None) [0..<length ts]"
proof (induction ts arbitrary: st u)
  case Nil
  then show ?case by simp
next
  case (Cons t ts)
  let ?fa = "failedAttempts (mfa u)"
  let ?u1 = "u\<lparr>mfa := (mfa u)\<lparr>failedAttempts := ?fa + 1,
        lockedUntil := (if maxFailedAttempts cfg \<le> ?fa + 1
                        then Some (t + lockoutDuration cfg * 60 * 1000)
                        else lockedUntil (mfa u))\<rparr>\<rparr>"
  let ?st1 = "st(uid \<mapsto> ?u1)"
  let ?r = "\<lparr>rf_locked = (maxFailedAttempts cfg \<le> ?fa + 1),
      rf_lockedUntil = (if maxFailedAttempts cfg \<le> ?fa + 1
                        then Some (t + lockoutDuration cfg * 60 * 1000) else None),
      rf_attempts = ?fa + 1\<rparr>"
  have le: "?fa + 1 \<le> 2 ^ 53" using Cons.prems(3) by simp
  have r0: "maxFailedAttempts cfg \<le> ?fa + 1 \<longrightarrow>
         \<bar>t + lockoutDuration cfg * 60 * 1000\<bar> \<le> 8640000000000000"
    using Cons.prems(5) by auto
  have step: "recordFailure cfg t uid (Some st) = Some (?r, Some ?st1)"
    using Cons.prems(1,2) le Cons.prems(4) r0 by (rule recordFailure_Some)
  have p1: "?st1 uid = Some ?u1" by simp
  have p2: "- (2 ^ 53) \<le> failedAttempts (mfa ?u1) + 1" using Cons.prems(2) by simp
  have p3: "failedAttempts (mfa ?u1) + int (length ts) \<le> 2 ^ 53" using Cons.prems(3) by simp
  have p5: "\<forall>i<length ts. maxFailedAttempts cfg \<le> failedAttempts (mfa ?u1) + 1 + int i \<longrightarrow>
      \<bar>ts ! i + lockoutDuration cfg * 60 * 1000\<bar> \<le> 8640000000000000"
  proof (intro allI impI)
    fix i assume "i < length ts"
      and "maxFailedAttempts cfg \<le> failedAttempts (mfa ?u1) + 1 + int i"
    then have "Suc i < length (t # ts)" "maxFailedAttempts cfg \<le> ?fa + 1 + int (Suc i)"
      by simp_all
    with Cons.prems(5) have "\<bar>(t # ts) ! Suc i + lockoutDuration cfg * 60 * 1000\<bar>
        \<le> 8640000000000000" by blast
    then show "\<bar>ts ! i + lockoutDuration cfg * 60 * 1000\<bar> \<le> 8640000000000000" by simp
  qed
  from Cons.IH [of ?st1 ?u1, OF p1 p2 p3 Cons.prems(4) p5] obtain rs st' u' where
    IH: "consecutiveFailures cfg ts uid (Some ?st1) = Some (rs, Some st')" "st' uid = Some u'"
      "failedAttempts (mfa u') = failedAttempts (mfa ?u1) + int (length ts)"
      "map rf_locked rs =
        map (\<lambda>i. maxFailedAttempts cfg \<le> failedAttempts (mfa ?u1) + 1 + int i) [0..<length ts]"
      "map rf_lockedUntil rs =
        map (\<lambda>i. if maxFailedAttempts cfg \<le> failedAttempts (mfa ?u1) + 1 + int i
                  then Some (ts ! i + lockoutDuration cfg * 60 * 1000) else None) [0..<length ts]"
    by blast
  have upt: "[0..<length (t # ts)] = 0 # map Suc [0..<length ts]"
    by (simp add: upt_conv_Cons map_Suc_upt del: upt_Suc)
  show ?case
    apply (rule exI [of _ "?r # rs"], rule exI [of _ st'], rule exI [of _ u'])
    using IH
    apply (simp only: consecutiveFailures.simps step upt)
    apply (auto simp add: o_def)
    done
qed

text \<open>
  C7 (as amended). For a profile whose \<open>failedAttempts\<close> is below \<open>2 ^ 53\<close> in absolute
  value, a \<open>lockoutDuration\<close> of at most \<open>1e11\<close> minutes and a lock time inside the range of
  \<^verbatim>\<open>Date\<close>, and with the user in the store, \<^verbatim>\<open>recordFailure\<close> reports and persists
  \<open>attempts = failedAttempts + 1\<close>; when \<open>attempts \<ge> maxFailedAttempts\<close> it reports \<open>locked\<close>
  and sets, in the report and in the store, \<open>lockedUntil\<close> to \<open>now\<close> plus \<open>lockoutDuration\<close>
  minutes; otherwise it reports \<open>locked = false\<close> with no \<open>lockedUntil\<close> and leaves the stored
  \<open>lockedUntil\<close> as it was. From a profile with no failed attempts, exactly
  \<open>maxFailedAttempts\<close> consecutive calls report \<open>locked = false\<close> each time but the last, which
  reports \<open>locked = true\<close> with \<open>lockedUntil\<close> counted from the clock of that call; and after
  fewer calls than \<open>maxFailedAttempts\<close> no report is locked, the stored counter is the number
  of calls, and \<^verbatim>\<open>recordSuccess\<close> sets it back to 0 and clears \<open>lockedUntil\<close>.
\<close>

theorem recordFailure_counts_and_locks:
  assumes u: "st uid = Some u"
    and lo: "- (2 ^ 53) \<le> failedAttempts (mfa u) + 1"
    and hi: "failedAttempts (mfa u) + 1 \<le> 2 ^ 53"
    and dur: "\<bar>lockoutDuration cfg\<bar> \<le> 100000000000"
    and date: "\<bar>now + lockoutDuration cfg * 60 * 1000\<bar> \<le> 8640000000000000"
  shows "(\<exists>r w'. recordFailure cfg now uid (Some st) = Some (r, w') \<and>
            rf_attempts r = failedAttempts (mfa u) + 1 \<and>
            map_option failedAttempts (storedMfa uid w') = Some (failedAttempts (mfa u) + 1) \<and>
            (if maxFailedAttempts cfg \<le> failedAttempts (mfa u) + 1 then
               rf_locked r \<and>
               rf_lockedUntil r = Some (now + lockoutDuration cfg * 60 * 1000) \<and>
               map_option lockedUntil (storedMfa uid w') =
                 Some (Some (now + lockoutDuration cfg * 60 * 1000))
             else
               \<not> rf_locked r \<and> rf_lockedUntil r = None \<and>
               map_option lockedUntil (storedMfa uid w') = Some (lockedUntil (mfa u))))
       \<and> (failedAttempts (mfa u) = 0 \<and> 1 \<le> maxFailedAttempts cfg \<and>
            int (length ts) = maxFailedAttempts cfg \<and> maxFailedAttempts cfg \<le> 2 ^ 53 \<and>
            \<bar>last ts + lockoutDuration cfg * 60 * 1000\<bar> \<le> 8640000000000000 \<longrightarrow>
            (\<exists>rs w'. consecutiveFailures cfg ts uid (Some st) = Some (rs, w') \<and>
               map rf_locked rs = replicate (length ts - 1) False @ [True] \<and>
               rf_lockedUntil (last rs) = Some (last ts + lockoutDuration cfg * 60 * 1000)))
       \<and> (failedAttempts (mfa u) = 0 \<and> int (length ts') < maxFailedAttempts cfg \<and>
            int (length ts') \<le> 2 ^ 53 \<longrightarrow>
            (\<exists>rs w'. consecutiveFailures cfg ts' uid (Some st) = Some (rs, w') \<and>
               list_all (\<lambda>r. \<not> rf_locked r) rs \<and>
               map_option failedAttempts (storedMfa uid w') = Some (int (length ts')) \<and>
               map_option failedAttempts (storedMfa uid (recordSuccess now uid w')) = Some 0 \<and>
               map_option lockedUntil (storedMfa uid (recordSuccess now uid w')) = Some None))"
proof (intro conjI impI)
  have "maxFailedAttempts cfg \<le> failedAttempts (mfa u) + 1 \<longrightarrow>
         \<bar>now + lockoutDuration cfg * 60 * 1000\<bar> \<le> 8640000000000000"
    using date by simp
  from recordFailure_Some [of st uid u cfg now, OF u lo hi dur this]
  show "\<exists>r w'. recordFailure cfg now uid (Some st) = Some (r, w') \<and>
            rf_attempts r = failedAttempts (mfa u) + 1 \<and>
            map_option failedAttempts (storedMfa uid w') = Some (failedAttempts (mfa u) + 1) \<and>
            (if maxFailedAttempts cfg \<le> failedAttempts (mfa u) + 1 then
               rf_locked r \<and>
               rf_lockedUntil r = Some (now + lockoutDuration cfg * 60 * 1000) \<and>
               map_option lockedUntil (storedMfa uid w') =
                 Some (Some (now + lockoutDuration cfg * 60 * 1000))
             else
               \<not> rf_locked r \<and> rf_lockedUntil r = None \<and>
               map_option lockedUntil (storedMfa uid w') = Some (lockedUntil (mfa u)))"
    by (simp add: storedMfa_def)
next
  assume h: "failedAttempts (mfa u) = 0 \<and> 1 \<le> maxFailedAttempts cfg \<and>
            int (length ts) = maxFailedAttempts cfg \<and> maxFailedAttempts cfg \<le> 2 ^ 53 \<and>
            \<bar>last ts + lockoutDuration cfg * 60 * 1000\<bar> \<le> 8640000000000000"
  from h obtain n where n: "length ts = Suc n" by (cases "length ts") auto
  have ne: "ts \<noteq> []" using n by auto
  have rng: "\<forall>i<length ts. maxFailedAttempts cfg \<le> failedAttempts (mfa u) + 1 + int i \<longrightarrow>
      \<bar>ts ! i + lockoutDuration cfg * 60 * 1000\<bar> \<le> 8640000000000000"
  proof (intro allI impI)
    fix i assume "i < length ts"
      and "maxFailedAttempts cfg \<le> failedAttempts (mfa u) + 1 + int i"
    with h n have "i = n" by simp
    with n ne have "ts ! i = last ts" by (simp add: last_conv_nth)
    with h show "\<bar>ts ! i + lockoutDuration cfg * 60 * 1000\<bar> \<le> 8640000000000000" by simp
  qed
  have b: "failedAttempts (mfa u) + int (length ts) \<le> 2 ^ 53" using h by simp
  from consecutiveFailures_Some [of st uid u ts cfg, OF u lo b dur rng] obtain rs st' u' where
    C: "consecutiveFailures cfg ts uid (Some st) = Some (rs, Some st')"
    and L: "map rf_locked rs =
        map (\<lambda>i. maxFailedAttempts cfg \<le> failedAttempts (mfa u) + 1 + int i) [0..<length ts]"
    and U: "map rf_lockedUntil rs =
        map (\<lambda>i. if maxFailedAttempts cfg \<le> failedAttempts (mfa u) + 1 + int i
                  then Some (ts ! i + lockoutDuration cfg * 60 * 1000) else None) [0..<length ts]"
    by blast
  have "map (\<lambda>i. maxFailedAttempts cfg \<le> failedAttempts (mfa u) + 1 + int i) [0..<length ts]
        = replicate (length ts - 1) False @ [True]"
    using h n by (auto simp: list_eq_iff_nth_eq nth_append)
  with L have 1: "map rf_locked rs = replicate (length ts - 1) False @ [True]" by simp
  have len: "length rs = length ts" using arg_cong [OF L, of length] by simp
  then have ne2: "rs \<noteq> []" using ne by auto
  have "rf_lockedUntil (last rs) = last (map rf_lockedUntil rs)"
    using ne2 by (simp add: last_map)
  also have "\<dots> = Some (last ts + lockoutDuration cfg * 60 * 1000)"
    unfolding U using h n ne by (simp add: last_conv_nth)
  finally have 2: "rf_lockedUntil (last rs) = Some (last ts + lockoutDuration cfg * 60 * 1000)" .
  from C 1 2 show "\<exists>rs w'. consecutiveFailures cfg ts uid (Some st) = Some (rs, w') \<and>
               map rf_locked rs = replicate (length ts - 1) False @ [True] \<and>
               rf_lockedUntil (last rs) = Some (last ts + lockoutDuration cfg * 60 * 1000)"
    by blast
next
  assume h: "failedAttempts (mfa u) = 0 \<and> int (length ts') < maxFailedAttempts cfg \<and>
            int (length ts') \<le> 2 ^ 53"
  have rng: "\<forall>i<length ts'. maxFailedAttempts cfg \<le> failedAttempts (mfa u) + 1 + int i \<longrightarrow>
      \<bar>ts' ! i + lockoutDuration cfg * 60 * 1000\<bar> \<le> 8640000000000000"
    using h by auto
  have b: "failedAttempts (mfa u) + int (length ts') \<le> 2 ^ 53" using h by simp
  from consecutiveFailures_Some [of st uid u ts' cfg, OF u lo b dur rng] obtain rs st' u' where
    C: "consecutiveFailures cfg ts' uid (Some st) = Some (rs, Some st')"
    and S: "st' uid = Some u'"
       "failedAttempts (mfa u') = failedAttempts (mfa u) + int (length ts')"
    and L: "map rf_locked rs =
        map (\<lambda>i. maxFailedAttempts cfg \<le> failedAttempts (mfa u) + 1 + int i) [0..<length ts']"
    by blast
  have "\<forall>b \<in> set (map rf_locked rs). \<not> b"
    unfolding L using h by auto
  then have 1: "list_all (\<lambda>r. \<not> rf_locked r) rs"
    by (simp add: list_all_iff)
  have 2: "map_option failedAttempts (storedMfa uid (Some st')) = Some (int (length ts'))"
    using S h by (simp add: storedMfa_def)
  have 3: "map_option failedAttempts (storedMfa uid (recordSuccess now uid (Some st'))) = Some 0"
    "map_option lockedUntil (storedMfa uid (recordSuccess now uid (Some st'))) = Some None"
    using S by (simp_all add: storedMfa_def recordSuccess_def updateById_def)
  from C 1 2 3 show "\<exists>rs w'. consecutiveFailures cfg ts' uid (Some st) = Some (rs, w') \<and>
               list_all (\<lambda>r. \<not> rf_locked r) rs \<and>
               map_option failedAttempts (storedMfa uid w') = Some (int (length ts')) \<and>
               map_option failedAttempts (storedMfa uid (recordSuccess now uid w')) = Some 0 \<and>
               map_option lockedUntil (storedMfa uid (recordSuccess now uid w')) = Some None"
    by blast
qed

theorem recordFailure_counts_and_locks_witness:
  "(\<exists>rs w'. consecutiveFailures getDefaultConfig [1000, 2000, 3000, 4000, 5000] ''u1''
               (store_of alice) = Some (rs, w') \<and>
      map rf_locked rs = [False, False, False, False, True] \<and>
      rf_lockedUntil (last rs) = Some 905000) \<and>
   (\<exists>rs w'. consecutiveFailures getDefaultConfig [1000, 2000] ''u1'' (store_of alice) =
               Some (rs, w') \<and>
      map_option failedAttempts (storedMfa ''u1'' w') = Some 2 \<and>
      map_option failedAttempts (storedMfa ''u1'' (recordSuccess 3000 ''u1'' w')) = Some 0) \<and>
   (\<exists>r w'. recordFailure getDefaultConfig 3000 ''u1'' (store_of alice) = Some (r, w') \<and>
      rf_attempts r = 1 \<and> \<not> rf_locked r)"
proof -
  have cfg: "maxFailedAttempts getDefaultConfig = 5" "lockoutDuration getDefaultConfig = 15"
    by (simp_all add: getDefaultConfig_def)
  have r: "replicate (length [1000, 2000, 3000, 4000, 5000 :: int] - 1) False @ [True] =
           [False, False, False, False, True]"
    by code_simp
  have l: "last [1000, 2000, 3000, 4000, 5000 :: int] = 5000" "length [1000, 2000 :: int] = 2"
    "int (length [1000, 2000, 3000, 4000, 5000 :: int]) = 5"
    by simp_all
  note T = recordFailure_counts_and_locks
    [of "[''u1'' \<mapsto> alice]" "''u1''" alice getDefaultConfig 3000
        "[1000, 2000, 3000, 4000, 5000]" "[1000, 2000]", unfolded r l cfg alice_fields,
     folded store_of_def]
  have T': "(\<exists>r w'. recordFailure getDefaultConfig 3000 ''u1'' (store_of alice) = Some (r, w') \<and>
            rf_attempts r = 1 \<and> \<not> rf_locked r) \<and>
     (\<exists>rs w'. consecutiveFailures getDefaultConfig [1000, 2000, 3000, 4000, 5000] ''u1''
               (store_of alice) = Some (rs, w') \<and>
        map rf_locked rs = [False, False, False, False, True] \<and>
        rf_lockedUntil (last rs) = Some 905000) \<and>
     (\<exists>rs w'. consecutiveFailures getDefaultConfig [1000, 2000] ''u1'' (store_of alice) =
               Some (rs, w') \<and>
        map_option failedAttempts (storedMfa ''u1'' w') = Some 2 \<and>
        map_option failedAttempts (storedMfa ''u1'' (recordSuccess 3000 ''u1'' w')) = Some 0)"
    using T by (simp add: store_of_def del: consecutiveFailures.simps) blast
  then show ?thesis by blast
qed

text \<open>
  C7 as stated (for every profile) fails: at \<open>failedAttempts = 2 ^ 53\<close> the sum
  \<open>failedAttempts + 1\<close> is not a double and rounds back, so \<^verbatim>\<open>recordFailure\<close> reports and
  stores \<open>attempts = failedAttempts\<close>: the counter does not move.
\<close>

theorem recordFailure_saturated_counter_counterexample:
  "failedAttempts (mfa alice_saturated) = 9007199254740992 \<and>
   map_option (\<lambda>(r, w'). rf_attempts r)
     (recordFailure getDefaultConfig 1000 ''u1'' (store_of alice_saturated)) =
     Some 9007199254740992 \<and>
   map_option (\<lambda>(r, w'). map_option failedAttempts (storedMfa ''u1'' w'))
     (recordFailure getDefaultConfig 1000 ''u1'' (store_of alice_saturated)) =
     Some (Some 9007199254740992)"
proof -
  have a: "jsAdd 9007199254740992 1 = 9007199254740992"
    using roundToDouble_saturated by (simp add: jsAdd_def)
  have d: "newDate (jsAdd 1000 (jsMul (jsMul 15 60) 1000)) = Some 901000"
    using lock_time_exact [of 15 1000] by simp
  show ?thesis
    by (simp add: alice_saturated_def recordFailure_def store_of_def getDefaultConfig_def
        storedMfa_def updateById_def a d Let_def)
qed

text \<open>
  C9. \<^verbatim>\<open>isLocked\<close> reads the user document and the clock and returns only its report (the
  store is neither an argument nor a result, so a stored \<open>lockedUntil\<close> in the past stays as
  it is): \<open>locked\<close> holds exactly when \<open>lockedUntil\<close> is set and \<open>now < lockedUntil\<close>, and
  \<open>remainingMinutes\<close> is \<open>ceil((lockedUntil - now) / 60000)\<close> when locked and absent
  otherwise.
\<close>

theorem isLocked_lazy_expiry:
  "ls_locked (isLocked now u) = (\<exists>t. lockedUntil (mfa u) = Some t \<and> now < t) \<and>
   ls_remainingMinutes (isLocked now u) =
     (case lockedUntil (mfa u) of
        None \<Rightarrow> None
      | Some t \<Rightarrow> if now < t then Some \<lceil>real_of_int (t - now) / 60000\<rceil> else None)"
  by (auto simp: isLocked_def Let_def split: option.split)

section \<open>Encryption\<close>

lemma decrypt_encrypt_roundtrip:
  assumes scrypt: "scrypt_length P" and gcm: "gcm_correct P" and b64: "base64_correct P"
    and utf8: "utf8_correct P"
    and iv: "length iv = 16" and x: "x \<noteq> []" and wf: "wellFormed x"
  shows "decrypt P sessionSecret (encrypt P sessionSecret iv x) = x"
proof -
  let ?key = "getEncryptionKey P sessionSecret"
  obtain ct tag where enc: "gcmEncrypt P ?key iv (utf8Bytes x) = (ct, tag)"
    by (cases "gcmEncrypt P ?key iv (utf8Bytes x)")
  from scrypt have key: "length ?key = 32"
    by (simp add: scrypt_length_def getEncryptionKey_def)
  have "case gcmEncrypt P ?key iv (utf8Bytes x) of
          (ct, tag) \<Rightarrow> length tag = 16 \<and> gcmDecrypt P ?key iv tag ct = Inr (utf8Bytes x)"
    using gcm [unfolded gcm_correct_def, rule_format, of ?key iv "utf8Bytes x"] key iv by simp
  with enc have tag: "length tag = 16" and dec: "gcmDecrypt P ?key iv tag ct = Inr (utf8Bytes x)"
    by simp_all
  from b64 have rt: "\<And>b. base64Decode P (base64Encode P b) = b"
    and empty: "base64Decode P [] = []"
    by (simp_all add: base64_correct_def)
  from utf8 wf have dec8: "utf8Decode P (utf8Bytes x) = x"
    by (simp add: utf8_correct_def)
  let ?blob = "base64Encode P (iv @ tag @ ct)"
  have blob: "encrypt P sessionSecret iv x = ?blob"
    using x enc by (simp add: encrypt_def Let_def rt)
  have "base64Decode P ?blob \<noteq> []"
    using iv by (auto simp: rt)
  with empty have ne: "?blob \<noteq> []" by auto
  have "decrypt_try P sessionSecret ?blob = Inr x"
    using iv tag dec dec8 by (simp add: decrypt_try_def Let_def rt)
  with ne blob show ?thesis by (simp add: decrypt_def)
qed

text \<open>
  C4 (as amended). For every non-empty text \<open>x\<close> in which every surrogate is paired and
  every 16-byte IV drawn by \<^verbatim>\<open>encrypt\<close>, \<open>decrypt (encrypt x) = x\<close> under the same process
  secret, the key being a function of that secret alone; the key derivation is assumed to
  return 32 bytes, the AES-GCM primitive, the base64 codec and the UTF-8 decoder to be
  correct.
\<close>

theorem decrypt_encrypt:
  assumes "scrypt_length P" and "gcm_correct P" and "base64_correct P" and "utf8_correct P"
    and "length iv = 16" and "x \<noteq> []" and "wellFormed x"
  shows "decrypt P sessionSecret (encrypt P sessionSecret iv x) = x"
  using assms by (rule decrypt_encrypt_roundtrip)

lemma demo_secret_wellFormed: "wellFormed demo_secret"
  by (simp add: demo_secret_def)

theorem decrypt_encrypt_witness:
  "decrypt demo_crypto None (encrypt demo_crypto None ''0123456789abcdef'' demo_secret)
     = demo_secret"
  using decrypt_encrypt [of demo_crypto "''0123456789abcdef''" demo_secret None]
    demo_crypto_scrypt_length demo_crypto_gcm_correct demo_crypto_base64_correct
    demo_crypto_utf8_correct demo_secret_wellFormed
  by (simp add: demo_secret_def)

lemma encrypt_replaces_unpaired_surrogate:
  "encrypt P sessionSecret iv [55296] = encrypt P sessionSecret iv [65533]"
  by (simp add: encrypt_def utf8Bytes_def)

text \<open>
  C4 as stated (for every non-empty string) fails: the string that holds one unpaired
  surrogate, U+D800, is encoded as U+FFFD before it is encrypted, the blob is the one of
  the string U+FFFD, and decryption returns U+FFFD.
\<close>

theorem decrypt_encrypt_unpaired_surrogate_counterexample:
  "encrypt demo_crypto None ''0123456789abcdef'' [55296] =
     encrypt demo_crypto None ''0123456789abcdef'' [65533] \<and>
   decrypt demo_crypto None (encrypt demo_crypto None ''0123456789abcdef'' [55296]) = [65533] \<and>
   [55296] \<noteq> [65533 :: nat] \<and> [55296] \<noteq> ([] :: nat list)"
proof -
  have "wellFormed [65533]" by simp
  with decrypt_encrypt_roundtrip [of demo_crypto "''0123456789abcdef''" "[65533]" None]
    demo_crypto_scrypt_length demo_crypto_gcm_correct demo_crypto_base64_correct
    demo_crypto_utf8_correct
  have "decrypt demo_crypto None (encrypt demo_crypto None ''0123456789abcdef'' [65533])
          = [65533]" by simp
  then show ?thesis by (simp add: encrypt_replaces_unpaired_surrogate)
qed

lemma decrypt_accepts_only_genuine:
  assumes auth: "gcm_authentic P" and len: "gcm_length P" and utf8: "utf8_correct P"
    and ne: "decrypt P sessionSecret blob \<noteq> []"
  shows "32 < length (base64Decode P blob) \<and>
         (\<exists>plain. gcmEncrypt P (getEncryptionKey P sessionSecret) (take 16 (base64Decode P blob))
                    plain =
                   (drop 32 (base64Decode P blob), take 16 (drop 16 (base64Decode P blob))) \<and>
                 decrypt P sessionSecret blob = utf8Decode P plain)"
proof -
  let ?key = "getEncryptionKey P sessionSecret"
  let ?data = "base64Decode P blob"
  let ?iv = "take 16 ?data" and ?tag = "take 16 (drop 16 ?data)" and ?ct = "drop 32 ?data"
  from ne obtain plain where dec: "gcmDecrypt P ?key ?iv ?tag ?ct = Inr plain"
    and res: "decrypt P sessionSecret blob = utf8Decode P plain"
    by (auto simp: decrypt_def decrypt_try_def Let_def split: if_splits sum.splits)
  obtain ct' tag' where enc: "gcmEncrypt P ?key ?iv plain = (ct', tag')"
    by (cases "gcmEncrypt P ?key ?iv plain")
  from auth [unfolded gcm_authentic_def, rule_format, OF dec] enc
  have ct: "ct' = ?ct" and t16: "length tag' = 16" and pre: "?tag = take (length ?tag) tag'"
    by simp_all
  from len [unfolded gcm_length_def, rule_format, of ?key ?iv plain] enc ct
  have l: "length ?ct = length plain" by simp
  from utf8 have e: "utf8Decode P [] = []"
    unfolding utf8_correct_def utf8Bytes_def by (metis list.simps(8) utf8Encode.simps(1) wellFormed.simps(1))
  have long: "32 < length ?data"
  proof (rule ccontr)
    assume "\<not> 32 < length ?data"
    then have "?ct = []" by simp
    with l have "plain = []" by simp
    with res e ne show False by simp
  qed
  then have "length ?tag = 16" by simp
  with pre t16 have "?tag = tag'" by simp
  with enc ct res long show ?thesis by auto
qed

text \<open>
  C5. \<^verbatim>\<open>decrypt\<close> fails closed. With an AES-GCM primitive that accepts only what the
  encryption produces: whichever error the body of the \<^verbatim>\<open>try\<close> block raises on a blob (a tag
  that does not verify, a malformed IV or tag, any other fault), the result is the empty
  string, the same for every cause; a blob too short to hold an IV, a tag and cipher text
  gives the empty string; and so does every blob that is not genuine, that is, not the
  encoding of a 16-byte IV, tag and cipher text that the cipher produces under the process
  key. The empty input gives the empty output in \<^verbatim>\<open>encrypt\<close> and in \<^verbatim>\<open>decrypt\<close>.
\<close>

theorem decrypt_fails_closed:
  assumes auth: "gcm_authentic P" and len: "gcm_length P" and utf8: "utf8_correct P"
  shows "decrypt P sessionSecret [] = [] \<and> encrypt P sessionSecret iv [] = [] \<and>
   (decrypt_try P sessionSecret blob = Inl e \<longrightarrow> decrypt P sessionSecret blob = []) \<and>
   (length (base64Decode P blob) \<le> 32 \<longrightarrow> decrypt P sessionSecret blob = []) \<and>
   (\<not> genuine P sessionSecret blob \<longrightarrow> decrypt P sessionSecret blob = [])"
proof (intro conjI impI)
  show "decrypt P sessionSecret [] = []" by (simp add: decrypt_def)
  show "encrypt P sessionSecret iv [] = []" by (simp add: encrypt_def)
  show "decrypt P sessionSecret blob = []" if "decrypt_try P sessionSecret blob = Inl e"
    using that by (simp add: decrypt_def)
  show "decrypt P sessionSecret blob = []" if "length (base64Decode P blob) \<le> 32"
    using decrypt_accepts_only_genuine [OF auth len utf8, of sessionSecret blob] that by auto
  show "decrypt P sessionSecret blob = []" if ng: "\<not> genuine P sessionSecret blob"
  proof (rule ccontr)
    assume "decrypt P sessionSecret blob \<noteq> []"
    from decrypt_accepts_only_genuine [OF auth len utf8 this] obtain plain where
      long: "32 < length (base64Decode P blob)" and
      enc: "gcmEncrypt P (getEncryptionKey P sessionSecret) (take 16 (base64Decode P blob)) plain =
             (drop 32 (base64Decode P blob), take 16 (drop 16 (base64Decode P blob)))"
      by blast
    have "base64Decode P blob = take 16 (base64Decode P blob) @
            take 16 (drop 16 (base64Decode P blob)) @ drop 32 (base64Decode P blob)"
      by (metis append_take_drop_id drop_drop numeral_Bit0 add.commute)
    moreover have "length (take 16 (base64Decode P blob)) = 16" using long by simp
    ultimately have "genuine P sessionSecret blob"
      unfolding genuine_def using enc
      by (intro exI [of _ "take 16 (base64Decode P blob)"] exI [of _ plain]) simp
    with ng show False ..
  qed
qed

lemma tampered_not_genuine:
  "\<not> genuine demo_crypto None ''0123456789abcdefTAMPEREDTAMPEREDxyz''"
proof
  define T where "T = ''0123456789abcdefTAMPEREDTAMPEREDxyz''"
  assume "genuine demo_crypto None ''0123456789abcdefTAMPEREDTAMPEREDxyz''"
  then obtain iv plain where iv: "length iv = 16"
    and eq: "T = iv @ demo_tag (rev plain) @ rev plain"
    by (auto simp: genuine_def demo_crypto_def T_def)
  have "iv @ (demo_tag (rev plain) @ rev plain) = T" using eq by simp
  then have 1: "demo_tag (rev plain) @ rev plain = drop 16 T"
    unfolding append_eq_conv_conj iv by simp
  then have "demo_tag (rev plain) = take (length (demo_tag (rev plain))) (drop 16 T) \<and>
      rev plain = drop (length (demo_tag (rev plain))) (drop 16 T)"
    by (simp only: append_eq_conv_conj)
  then have 2: "demo_tag (rev plain) = take 16 (drop 16 T)"
    and 3: "rev plain = drop 16 (drop 16 T)"
    unfolding demo_tag_length by blast+
  have "demo_tag (drop 16 (drop 16 T)) = take 16 (drop 16 T)"
    using 2 unfolding 3 .
  moreover have "demo_tag (drop 16 (drop 16 T)) \<noteq> take 16 (drop 16 T)"
    unfolding T_def by code_simp
  ultimately show False by simp
qed

theorem decrypt_fails_closed_witness:
  "decrypt_try demo_crypto None ''0123456789abcdefTAMPEREDTAMPEREDxyz'' = Inl AuthFailed \<and>
   \<not> genuine demo_crypto None ''0123456789abcdefTAMPEREDTAMPEREDxyz'' \<and>
   decrypt demo_crypto None ''0123456789abcdefTAMPEREDTAMPEREDxyz'' = [] \<and>
   length (base64Decode demo_crypto ''short'') \<le> 32 \<and>
   decrypt demo_crypto None ''short'' = []"
proof -
  note T = decrypt_fails_closed
    [OF demo_crypto_gcm_authentic demo_crypto_gcm_length demo_crypto_utf8_correct]
  have t: "decrypt_try demo_crypto None ''0123456789abcdefTAMPEREDTAMPEREDxyz'' = Inl AuthFailed"
    by code_simp
  have s: "length (base64Decode demo_crypto ''short'') \<le> 32"
    by (simp add: demo_crypto_def)
  from T [of None "[]" "''0123456789abcdefTAMPEREDTAMPEREDxyz''"] tampered_not_genuine
  have "decrypt demo_crypto None ''0123456789abcdefTAMPEREDTAMPEREDxyz'' = []"
    by blast
  moreover from T [of None "[]" "''short''"] s
  have "decrypt demo_crypto None ''short'' = []"
    by blast
  ultimately show ?thesis using t s tampered_not_genuine by simp
qed

section \<open>Backup codes\<close>

lemma verifyFrom_Nil: "verifyFrom h [] i = Inr (- 1)"
  by (simp add: verifyFrom.simps)

lemma verifyFrom_shift:
  "verifyFrom h (x # hs) (Suc i) =
     map_sum (\<lambda>e. e) (\<lambda>r. if r = - 1 then - 1 else r + 1) (verifyFrom h hs i)"
proof (induction h hs i rule: verifyFrom.induct)
  case (1 h hs i)
  show ?case
  proof (cases "i < length hs")
    case False
    then show ?thesis
      by (simp add: verifyFrom.simps [of h "x # hs" "Suc i"] verifyFrom.simps [of h hs i])
  next
    case True
    show ?thesis
    proof (cases "timingSafeEqual h (hs ! i)")
      case (Inl e)
      with True show ?thesis
        by (simp add: verifyFrom.simps [of h "x # hs" "Suc i"] verifyFrom.simps [of h hs i])
    next
      case (Inr eq)
      show ?thesis
      proof (cases eq)
        case True
        with \<open>i < length hs\<close> Inr show ?thesis
          by (simp add: verifyFrom.simps [of h "x # hs" "Suc i"] verifyFrom.simps [of h hs i])
      next
        case False
        from "1.IH" [OF \<open>i < length hs\<close> Inr False]
        have "verifyFrom h (x # hs) (Suc (i + 1)) =
              map_sum (\<lambda>e. e) (\<lambda>r. if r = - 1 then - 1 else r + 1) (verifyFrom h hs (i + 1))"
          by simp
        with \<open>i < length hs\<close> Inr False show ?thesis
          by (simp add: verifyFrom.simps [of h "x # hs" "Suc i"] verifyFrom.simps [of h hs i])
      qed
    qed
  qed
qed

lemma verifyFrom_Cons:
  "verifyFrom h (x # hs) 0 =
     (if length h \<noteq> length x then Inl InputLengthMismatch
      else if h = x then Inr 0
      else map_sum (\<lambda>e. e) (\<lambda>r. if r = - 1 then - 1 else r + 1) (verifyFrom h hs 0))"
  using verifyFrom_shift [of h x hs 0]
  by (simp add: verifyFrom.simps [of h "x # hs" 0] timingSafeEqual_def)

lemma verifyFrom_range:
  "verifyFrom h hs 0 = Inr r \<Longrightarrow> r = - 1 \<or> (0 \<le> r \<and> r < int (length hs))"
proof (induction hs arbitrary: r)
  case Nil
  then show ?case by (simp add: verifyFrom_Nil)
next
  case (Cons x hs)
  then show ?case
    by (cases "verifyFrom h hs 0") (auto simp: verifyFrom_Cons split: if_splits)
qed

lemma verifyFrom_error_iff:
  "verifyFrom h hs 0 = Inl e \<longleftrightarrow>
     e = InputLengthMismatch \<and>
     (\<exists>j<length hs. length (hs ! j) \<noteq> length h \<and> (\<forall>i<j. hs ! i \<noteq> h))"
proof (induction hs)
  case Nil
  then show ?case by (simp add: verifyFrom_Nil)
next
  case (Cons x hs)
  show ?case
  proof (cases "length h \<noteq> length x")
    case True
    then show ?thesis by (auto simp: verifyFrom_Cons)
  next
    case wf: False
    show ?thesis
    proof (cases "h = x")
      case True
      then show ?thesis
        by (auto simp: verifyFrom_Cons Ex_less_Suc2 All_less_Suc2)
    next
      case False
      have "verifyFrom h (x # hs) 0 = Inl e \<longleftrightarrow> verifyFrom h hs 0 = Inl e"
        using wf False by (cases "verifyFrom h hs 0") (auto simp: verifyFrom_Cons)
      then show ?thesis
        using wf False Cons.IH by (simp add: Ex_less_Suc2 All_less_Suc2)
    qed
  qed
qed

lemma verifyFrom_index_iff:
  "verifyFrom h hs 0 = Inr (int j) \<longleftrightarrow>
     j < length hs \<and> hs ! j = h \<and> (\<forall>i<j. length (hs ! i) = length h \<and> hs ! i \<noteq> h)"
proof (induction hs arbitrary: j)
  case Nil
  then show ?case by (simp add: verifyFrom_Nil)
next
  case (Cons x hs)
  show ?case
  proof (cases j)
    case 0
    show ?thesis
    proof (cases "verifyFrom h hs 0")
      case (Inl e)
      then show ?thesis using 0 by (auto simp: verifyFrom_Cons)
    next
      case (Inr r)
      with verifyFrom_range [of h hs r] show ?thesis using 0 by (auto simp: verifyFrom_Cons)
    qed
  next
    case (Suc k)
    have "verifyFrom h (x # hs) 0 = Inr (int (Suc k)) \<longleftrightarrow>
          length x = length h \<and> x \<noteq> h \<and> verifyFrom h hs 0 = Inr (int k)"
      by (cases "verifyFrom h hs 0") (auto simp: verifyFrom_Cons)
    then show ?thesis
      using Suc Cons.IH [of k] by (auto simp: All_less_Suc2)
  qed
qed

lemma verifyFrom_notfound_iff:
  "verifyFrom h hs 0 = Inr (- 1) \<longleftrightarrow> (\<forall>x\<in>set hs. length x = length h \<and> x \<noteq> h)"
proof (induction hs)
  case Nil
  then show ?case by (simp add: verifyFrom_Nil)
next
  case (Cons x hs)
  have "verifyFrom h (x # hs) 0 = Inr (- 1) \<longleftrightarrow>
        length x = length h \<and> x \<noteq> h \<and> verifyFrom h hs 0 = Inr (- 1)"
  proof (cases "verifyFrom h hs 0")
    case (Inl e)
    then show ?thesis by (auto simp: verifyFrom_Cons)
  next
    case (Inr r)
    with verifyFrom_range [of h hs r] show ?thesis by (auto simp: verifyFrom_Cons)
  qed
  then show ?case using Cons.IH by auto
qed

lemma hash_length: "sha256_length P \<Longrightarrow> length (hashBackupCode P code) = 64"
  by (simp add: sha256_length_def hashBackupCode_def)

lemma verifyFrom_splice1:
  assumes d: "distinct hs" and i: "i < length hs" and m: "hs ! i = h"
    and wf: "\<forall>x\<in>set hs. length x = length h"
  shows "verifyFrom h (splice1 hs i) 0 = Inr (- 1)"
proof -
  have "h \<notin> set (take i hs)"
    using d i m by (metis distinct_take id_take_nth_drop not_distinct_conv_prefix append.assoc append_Cons)
  moreover have "h \<notin> set (drop (i + 1) hs)"
    using d i m by (metis Suc_eq_plus1 distinct_drop id_take_nth_drop distinct_append distinct.simps(2) append_take_drop_id drop_Suc tl_drop Cons_nth_drop_Suc)
  moreover have "set (splice1 hs i) \<subseteq> set hs"
    by (auto simp: splice1_def dest: in_set_takeD in_set_dropD)
  ultimately show ?thesis
    using wf by (auto simp: verifyFrom_notfound_iff splice1_def)
qed

lemma dashCaseVariant_normalized:
  assumes up: "upper_keeps_dashes P" and v: "dashCaseVariant P code v"
  shows "toUpperCase P (filter (\<lambda>c. c \<noteq> CHR ''-'') v) =
         toUpperCase P (filter (\<lambda>c. c \<noteq> CHR ''-'') code)"
  using v
proof (induction rule: dashCaseVariant.induct)
  case same
  show ?case by simp
next
  case (dash_in a b)
  then show ?case by simp
next
  case (dash_out a b)
  then show ?case by simp
next
  case (recase v v')
  have "toUpperCase P (filter (\<lambda>c. c \<noteq> CHR ''-'') v') =
        filter (\<lambda>c. c \<noteq> CHR ''-'') (toUpperCase P v')"
    using up by (simp add: upper_keeps_dashes_def)
  also have "\<dots> = filter (\<lambda>c. c \<noteq> CHR ''-'') (toUpperCase P v)"
    using recase.hyps(2) by simp
  also have "\<dots> = toUpperCase P (filter (\<lambda>c. c \<noteq> CHR ''-'') v)"
    using up by (simp add: upper_keeps_dashes_def)
  finally show ?case using recase.IH by simp
qed

text \<open>
  C6 (as amended). The hash of a backup code is the same for every variant of the code
  that differs only in letter case or in the placement of dashes: \<^verbatim>\<open>hashBackupCode\<close>
  removes the character \<^verbatim>\<open>-\<close> and uppercases before hashing, so verification answers the
  same for both. Other separator characters are not removed by \<^verbatim>\<open>hashBackupCode\<close>.
\<close>

theorem hashBackupCode_dash_case_invariant:
  "upper_keeps_dashes P \<Longrightarrow> dashCaseVariant P code v \<Longrightarrow>
   hashBackupCode P v = hashBackupCode P code \<and>
   verifyBackupCode P v hashes = verifyBackupCode P code hashes"
  using dashCaseVariant_normalized [of P code v]
  by (simp add: hashBackupCode_def verifyBackupCode_def)

theorem hashBackupCode_dash_case_invariant_witness:
  "dashCaseVariant demo_crypto ''A1B2-C3D4'' ''a1-b2c3d-4'' \<and>
   hashBackupCode demo_crypto ''a1-b2c3d-4'' = hashBackupCode demo_crypto ''A1B2-C3D4'' \<and>
   verifyBackupCode demo_crypto ''a1-b2c3d-4'' [hashBackupCode demo_crypto ''A1B2-C3D4''] =
     verifyBackupCode demo_crypto ''A1B2-C3D4'' [hashBackupCode demo_crypto ''A1B2-C3D4'']"
proof -
  have 0: "dashCaseVariant demo_crypto ''A1B2-C3D4'' (''A1B2'' @ CHR ''-'' # ''C3D4'')"
    using dashCaseVariant.same [of demo_crypto "''A1B2-C3D4''"] by simp
  have 1: "dashCaseVariant demo_crypto ''A1B2-C3D4'' (''A1B2'' @ ''C3D4'')"
    using 0 by (rule dashCaseVariant.dash_out)
  have up: "toUpperCase demo_crypto ''a1b2c3d4'' = toUpperCase demo_crypto (''A1B2'' @ ''C3D4'')"
    by code_simp
  have 2: "dashCaseVariant demo_crypto ''A1B2-C3D4'' (''a1'' @ ''b2c3d4'')"
    using dashCaseVariant.recase [OF 1 up] by simp
  have 3: "dashCaseVariant demo_crypto ''A1B2-C3D4'' (''a1-b2c3d'' @ ''4'')"
    using dashCaseVariant.dash_in [OF 2] by simp
  have v: "dashCaseVariant demo_crypto ''A1B2-C3D4'' ''a1-b2c3d-4''"
    using dashCaseVariant.dash_in [OF 3] by simp
  from hashBackupCode_dash_case_invariant [OF demo_crypto_upper_keeps_dashes v] v
  show ?thesis by simp
qed

lemma hashBackupCode_keeps_dot:
  "hashBackupCode P ''A1B2.C3D4'' = sha256Hex P (toUpperCase P ''A1B2.C3D4'' @ ''mfa-backup-salt'') \<and>
   hashBackupCode P ''A1B2-C3D4'' = sha256Hex P (toUpperCase P ''A1B2C3D4'' @ ''mfa-backup-salt'')"
  by (simp add: hashBackupCode_def)

text \<open>
  C6 as stated fails: \<^verbatim>\<open>A1B2.C3D4\<close> and \<^verbatim>\<open>A1B2-C3D4\<close> have the same normal form in the
  words of the specification (non-alphanumeric characters stripped), yet
  \<^verbatim>\<open>hashBackupCode\<close> keeps the dot, hashes different texts, and verification of the one
  against the stored hash of the other finds nothing.
\<close>

theorem hashBackupCode_dot_counterexample:
  "normalize_spec demo_crypto ''A1B2.C3D4'' = normalize_spec demo_crypto ''A1B2-C3D4'' \<and>
   hashBackupCode demo_crypto ''A1B2.C3D4'' \<noteq> hashBackupCode demo_crypto ''A1B2-C3D4'' \<and>
   verifyBackupCode demo_crypto ''A1B2.C3D4'' [hashBackupCode demo_crypto ''A1B2-C3D4''] =
     Inr (- 1)"
proof -
  have 1: "normalize_spec demo_crypto ''A1B2.C3D4'' = normalize_spec demo_crypto ''A1B2-C3D4''"
    by (simp add: normalize_spec_def isAlnum_def)
  have 2: "hashBackupCode demo_crypto ''A1B2.C3D4'' \<noteq> hashBackupCode demo_crypto ''A1B2-C3D4''"
    by code_simp
  have 3: "length (hashBackupCode demo_crypto ''A1B2.C3D4'') =
           length (hashBackupCode demo_crypto ''A1B2-C3D4'')"
    using demo_crypto_sha256_length by (simp add: sha256_length_def hashBackupCode_def)
  have "verifyFrom (hashBackupCode demo_crypto ''A1B2.C3D4'')
          [hashBackupCode demo_crypto ''A1B2-C3D4''] 0 = Inr (- 1)"
    using 2 3 by (simp add: verifyFrom_notfound_iff)
  with 1 2 show ?thesis by (simp add: verifyBackupCode_def)
qed

text \<open>
  C8 (as amended). When every stored hash has the byte length of a hex SHA-256 digest
  (64), \<^verbatim>\<open>verifyBackupCode\<close> returns \<open>-1\<close> if no entry equals the hash of the code and
  otherwise the first index whose entry equals it; and for a matched code, the stored
  hashes being pairwise distinct, \<^verbatim>\<open>useBackupCode\<close> stores the list without exactly the
  entry at that index, one entry shorter, against which the same code is no longer
  found.
\<close>

theorem verifyBackupCode_first_match_and_consume:
  assumes sha: "sha256_length P" and wf: "\<forall>h\<in>set hashes. length h = 64"
  shows "(hashBackupCode P code \<notin> set hashes \<longrightarrow> verifyBackupCode P code hashes = Inr (- 1)) \<and>
    (hashBackupCode P code \<in> set hashes \<longrightarrow>
       (\<exists>i<length hashes. verifyBackupCode P code hashes = Inr (int i) \<and>
          hashes ! i = hashBackupCode P code \<and>
          (\<forall>j<i. hashes ! j \<noteq> hashBackupCode P code))) \<and>
    (distinct hashes \<and> st userId = Some u \<and> backupCodes (mfa u) = hashes \<and>
     verifyBackupCode P code hashes = Inr (int i) \<longrightarrow>
       (\<exists>w'. useBackupCode P now userId code (Some st) = Inr (True, w') \<and>
          map_option backupCodes (storedMfa userId w') =
            Some (take i hashes @ drop (Suc i) hashes) \<and>
          length (take i hashes @ drop (Suc i) hashes) = length hashes - 1 \<and>
          verifyBackupCode P code (take i hashes @ drop (Suc i) hashes) = Inr (- 1)))"
proof (intro conjI impI)
  let ?h = "hashBackupCode P code"
  from sha wf have wf': "\<forall>x\<in>set hashes. length x = length ?h"
    by (simp add: hash_length)
  {
    assume "?h \<notin> set hashes"
    with wf' show "verifyBackupCode P code hashes = Inr (- 1)"
      by (auto simp: verifyBackupCode_def verifyFrom_notfound_iff)
  }
  {
    assume "?h \<in> set hashes"
    then have ex: "\<exists>i<length hashes. hashes ! i = ?h" by (simp add: in_set_conv_nth)
    define i where "i = (LEAST i. i < length hashes \<and> hashes ! i = ?h)"
    from ex have i: "i < length hashes \<and> hashes ! i = ?h"
      unfolding i_def by (rule LeastI_ex)
    have least: "\<And>j. j < i \<Longrightarrow> hashes ! j \<noteq> ?h"
    proof
      fix j assume "j < i" and "hashes ! j = ?h"
      with i have "j < length hashes \<and> hashes ! j = ?h" by simp
      then have "i \<le> j" unfolding i_def by (rule Least_le)
      with \<open>j < i\<close> show False by simp
    qed
    have "verifyFrom ?h hashes 0 = Inr (int i)"
      using i least wf' by (simp add: verifyFrom_index_iff)
    with i least show "\<exists>i<length hashes. verifyBackupCode P code hashes = Inr (int i) \<and>
          hashes ! i = hashBackupCode P code \<and>
          (\<forall>j<i. hashes ! j \<noteq> hashBackupCode P code)"
      by (auto simp: verifyBackupCode_def)
  }
  {
    assume h: "distinct hashes \<and> st userId = Some u \<and> backupCodes (mfa u) = hashes \<and>
     verifyBackupCode P code hashes = Inr (int i)"
    then have v: "verifyFrom ?h hashes 0 = Inr (int i)"
      by (simp add: verifyBackupCode_def)
    then have i: "i < length hashes" "hashes ! i = ?h"
      by (simp_all add: verifyFrom_index_iff)
    have sp: "splice1 hashes i = take i hashes @ drop (Suc i) hashes"
      by (simp add: splice1_def)
    have gone: "verifyFrom ?h (splice1 hashes i) 0 = Inr (- 1)"
      using h i wf' by (intro verifyFrom_splice1) auto
    let ?w' = "Some (updateById userId
                       (\<lambda>m. m\<lparr>backupCodes := splice1 hashes i,
                               lastUsedAt := Some now, failedAttempts := 0,
                               lockedUntil := None\<rparr>) st)"
    have use: "useBackupCode P now userId code (Some st) = Inr (True, ?w')"
      using h by (simp add: useBackupCode_def)
    have stored: "map_option backupCodes (storedMfa userId ?w') = Some (splice1 hashes i)"
      using h by (simp add: storedMfa_def updateById_def)
    have len: "length (take i hashes @ drop (Suc i) hashes) = length hashes - 1"
      using i by simp
    show "\<exists>w'. useBackupCode P now userId code (Some st) = Inr (True, w') \<and>
          map_option backupCodes (storedMfa userId w') =
            Some (take i hashes @ drop (Suc i) hashes) \<and>
          length (take i hashes @ drop (Suc i) hashes) = length hashes - 1 \<and>
          verifyBackupCode P code (take i hashes @ drop (Suc i) hashes) = Inr (- 1)"
      using use stored len gone
      by (intro exI [of _ ?w']) (simp add: verifyBackupCode_def sp)
  }
qed

theorem verifyBackupCode_first_match_and_consume_witness:
  "verifyBackupCode demo_crypto ''ffff0000'' (backupCodes (mfa alice)) = Inr 1 \<and>
   (\<exists>w'. useBackupCode demo_crypto 7000 ''u1'' ''ffff0000'' (store_of alice) = Inr (True, w') \<and>
      map_option backupCodes (storedMfa ''u1'' w') =
        Some [hashBackupCode demo_crypto ''A1B2-C3D4'']) \<and>
   verifyBackupCode demo_crypto ''ffff0000'' [hashBackupCode demo_crypto ''A1B2-C3D4''] =
     Inr (- 1) \<and>
   verifyBackupCode demo_crypto ''0000-0000'' (backupCodes (mfa alice)) = Inr (- 1)"
proof -
  let ?hs = "[hashBackupCode demo_crypto ''A1B2-C3D4'', hashBackupCode demo_crypto ''FFFF-0000'']"
  have v: "verifyBackupCode demo_crypto ''ffff0000'' ?hs = Inr (int 1)"
    by code_simp
  have d: "distinct ?hs"
    by code_simp
  have n: "hashBackupCode demo_crypto ''0000-0000'' \<notin> set ?hs"
    by code_simp
  have wf: "\<forall>h\<in>set ?hs. length h = 64"
    using demo_crypto_sha256_length by (simp add: sha256_length_def hashBackupCode_def)
  note T = verifyBackupCode_first_match_and_consume [OF demo_crypto_sha256_length wf]
  from T [of "''ffff0000''" "[''u1'' \<mapsto> alice]" "''u1''" alice 1 7000] v d
  have "\<exists>w'. useBackupCode demo_crypto 7000 ''u1'' ''ffff0000'' (Some [''u1'' \<mapsto> alice]) =
          Inr (True, w') \<and>
        map_option backupCodes (storedMfa ''u1'' w') = Some (take 1 ?hs @ drop (Suc 1) ?hs) \<and>
        length (take 1 ?hs @ drop (Suc 1) ?hs) = length ?hs - 1 \<and>
        verifyBackupCode demo_crypto ''ffff0000'' (take 1 ?hs @ drop (Suc 1) ?hs) = Inr (- 1)"
    by (simp add: alice_fields)
  moreover from T [of "''0000-0000''"] n
  have "verifyBackupCode demo_crypto ''0000-0000'' ?hs = Inr (- 1)"
    by blast
  ultimately show ?thesis
    using v by (auto simp: alice_fields store_of_def)
qed

text \<open>
  C8 as stated (for every stored hash list) fails: with a stored entry that is not 64
  bytes long in front, \<^verbatim>\<open>verifyBackupCode\<close> returns neither \<open>-1\<close> for a code that matches no
  entry nor the index of the entry that a code does match; \<^verbatim>\<open>timingSafeEqual\<close> throws.
\<close>

theorem verifyBackupCode_malformed_hash_counterexample:
  "hashBackupCode demo_crypto ''A1B2-C3D4'' \<notin> set [''legacy'', hashBackupCode demo_crypto ''FFFF-0000''] \<and>
   verifyBackupCode demo_crypto ''A1B2-C3D4'' [''legacy'', hashBackupCode demo_crypto ''FFFF-0000'']
     = Inl InputLengthMismatch \<and>
   verifyBackupCode demo_crypto ''FFFF-0000'' [''legacy'', hashBackupCode demo_crypto ''FFFF-0000'']
     = Inl InputLengthMismatch"
  by code_simp

text \<open>
  C10. \<^verbatim>\<open>verifyBackupCode\<close> returns (an index inside the list, or \<open>-1\<close>) whenever every
  stored hash is 64 bytes long, the length of the hex SHA-256 digest of the code; it throws
  exactly when an entry of another length is reached before any entry that matches; and,
  provided some code hashes to a value that is not stored, it returns for every code only
  if every stored hash is 64 bytes long.
\<close>

theorem verifyBackupCode_throws_iff_malformed_reached:
  assumes sha: "sha256_length P"
  shows "((\<forall>h\<in>set hashes. length h = 64) \<longrightarrow>
            (\<exists>r. verifyBackupCode P code hashes = Inr r \<and>
                 (r = - 1 \<or> (0 \<le> r \<and> r < int (length hashes))))) \<and>
         ((\<exists>e. verifyBackupCode P code hashes = Inl e) \<longleftrightarrow>
            (\<exists>j<length hashes. length (hashes ! j) \<noteq> 64 \<and>
               (\<forall>i<j. hashes ! i \<noteq> hashBackupCode P code))) \<and>
         ((\<exists>c. hashBackupCode P c \<notin> set hashes) \<longrightarrow>
            ((\<forall>c. \<exists>r. verifyBackupCode P c hashes = Inr r) \<longleftrightarrow>
             (\<forall>h\<in>set hashes. length h = 64)))"
proof -
  have len: "\<And>c. length (hashBackupCode P c) = 64"
    using sha by (rule hash_length)
  have err: "\<And>c. (\<exists>e. verifyBackupCode P c hashes = Inl e) \<longleftrightarrow>
            (\<exists>j<length hashes. length (hashes ! j) \<noteq> 64 \<and>
               (\<forall>i<j. hashes ! i \<noteq> hashBackupCode P c))"
    by (simp add: verifyBackupCode_def verifyFrom_error_iff len)
  have wf_total: "\<And>c. (\<forall>h\<in>set hashes. length h = 64) \<Longrightarrow>
            (\<exists>r. verifyBackupCode P c hashes = Inr r \<and>
                 (r = - 1 \<or> (0 \<le> r \<and> r < int (length hashes))))"
  proof -
    fix c assume wf: "\<forall>h\<in>set hashes. length h = 64"
    have "\<not> (\<exists>e. verifyBackupCode P c hashes = Inl e)"
      unfolding err using wf by auto
    then obtain r where r: "verifyBackupCode P c hashes = Inr r"
      by (cases "verifyBackupCode P c hashes") auto
    then have "r = - 1 \<or> (0 \<le> r \<and> r < int (length hashes))"
      by (intro verifyFrom_range [of "hashBackupCode P c"]) (simp add: verifyBackupCode_def)
    with r show "\<exists>r. verifyBackupCode P c hashes = Inr r \<and>
                 (r = - 1 \<or> (0 \<le> r \<and> r < int (length hashes)))" by blast
  qed
  have total_wf: "(\<forall>h\<in>set hashes. length h = 64)"
    if fresh: "\<exists>c. hashBackupCode P c \<notin> set hashes"
      and total: "\<forall>c. \<exists>r. verifyBackupCode P c hashes = Inr r"
  proof (rule ccontr)
    assume "\<not> (\<forall>h\<in>set hashes. length h = 64)"
    then obtain j where j: "j < length hashes" "length (hashes ! j) \<noteq> 64"
      by (auto simp: in_set_conv_nth)
    from fresh obtain c where c: "hashBackupCode P c \<notin> set hashes" ..
    then have "\<forall>i<j. hashes ! i \<noteq> hashBackupCode P c"
      using j by (metis nth_mem less_trans)
    with j have "\<exists>e. verifyBackupCode P c hashes = Inl e"
      unfolding err by blast
    with total show False by (metis sum.distinct(1))
  qed
  show ?thesis
    using err [of code] wf_total [of code] wf_total total_wf by blast
qed

theorem verifyBackupCode_throws_iff_malformed_reached_witness:
  "verifyBackupCode demo_crypto ''A1B2-C3D4'' [''not-a-digest''] = Inl InputLengthMismatch \<and>
   verifyBackupCode demo_crypto ''A1B2-C3D4''
     [hashBackupCode demo_crypto ''A1B2-C3D4'', ''not-a-digest''] = Inr 0 \<and>
   (\<exists>e. verifyBackupCode demo_crypto ''FFFF-0000''
     [hashBackupCode demo_crypto ''A1B2-C3D4'', ''not-a-digest''] = Inl e) \<and>
   (\<exists>r. verifyBackupCode demo_crypto ''FFFF-0000'' [hashBackupCode demo_crypto ''A1B2-C3D4'']
           = Inr r)"
proof -
  have 1: "verifyBackupCode demo_crypto ''A1B2-C3D4'' [''not-a-digest''] = Inl InputLengthMismatch"
    by code_simp
  have 2: "verifyBackupCode demo_crypto ''A1B2-C3D4''
     [hashBackupCode demo_crypto ''A1B2-C3D4'', ''not-a-digest''] = Inr 0"
    by code_simp
  have ne: "hashBackupCode demo_crypto ''A1B2-C3D4'' \<noteq> hashBackupCode demo_crypto ''FFFF-0000''"
    by code_simp
  note T = verifyBackupCode_throws_iff_malformed_reached [OF demo_crypto_sha256_length]
  have "\<exists>j<length [hashBackupCode demo_crypto ''A1B2-C3D4'', ''not-a-digest''].
          length ([hashBackupCode demo_crypto ''A1B2-C3D4'', ''not-a-digest''] ! j) \<noteq> 64 \<and>
          (\<forall>i<j. [hashBackupCode demo_crypto ''A1B2-C3D4'', ''not-a-digest''] ! i \<noteq>
                  hashBackupCode demo_crypto ''FFFF-0000'')"
    using ne by (intro exI [of _ 1]) simp
  with T [of "[hashBackupCode demo_crypto ''A1B2-C3D4'', ''not-a-digest'']" "''FFFF-0000''"]
  have 3: "\<exists>e. verifyBackupCode demo_crypto ''FFFF-0000''
     [hashBackupCode demo_crypto ''A1B2-C3D4'', ''not-a-digest''] = Inl e"
    by blast
  have "\<forall>h\<in>set [hashBackupCode demo_crypto ''A1B2-C3D4'']. length h = 64"
    using demo_crypto_sha256_length by (simp add: hash_length)
  with T [of "[hashBackupCode demo_crypto ''A1B2-C3D4'']" "''FFFF-0000''"]
  have 4: "\<exists>r. verifyBackupCode demo_crypto ''FFFF-0000'' [hashBackupCode demo_crypto ''A1B2-C3D4'']
           = Inr r"
    by blast
  from 1 2 3 4 show ?thesis by blast
qed

section \<open>Login step and disable\<close>

lemma alice_unlocked: "\<not> ls_locked (isLocked now alice)"
  by (simp add: isLocked_def alice_fields)

lemma alice_secret: "getDecryptedSecret demo_crypto None alice = demo_secret"
proof -
  have "secret (mfa alice) = encrypt demo_crypto None ''0123456789abcdef'' demo_secret"
    by (simp add: alice_def)
  moreover have "encrypt demo_crypto None ''0123456789abcdef'' demo_secret \<noteq> []"
    by (simp add: encrypt_def demo_crypto_def demo_secret_def)
  moreover have "decrypt demo_crypto None
      (encrypt demo_crypto None ''0123456789abcdef'' demo_secret) = demo_secret"
    using decrypt_encrypt_roundtrip [of demo_crypto "''0123456789abcdef''" demo_secret None]
      demo_crypto_scrypt_length demo_crypto_gcm_correct demo_crypto_base64_correct
      demo_crypto_utf8_correct demo_secret_wellFormed
    by (simp add: demo_secret_def)
  ultimately show ?thesis by (simp add: getDecryptedSecret_def)
qed

lemma demo_secret_nonempty: "demo_secret \<noteq> []"
  by (simp add: demo_secret_def)

lemma alice_bad_secret_fields:
  "user_id alice_bad_secret = ''u1''" "enabled (mfa alice_bad_secret)"
  "failedAttempts (mfa alice_bad_secret) = 0" "lockedUntil (mfa alice_bad_secret) = None"
  "secret (mfa alice_bad_secret) = ''blob''"
  by (simp_all add: alice_bad_secret_def alice_fields)

lemma alice_bad_secret_undecryptable:
  "decrypt_try demo_crypto None ''blob'' = Inl InvalidAuthTag"
  by code_simp

lemma useBackupCode_rejects_keeps_store:
  "useBackupCode P now userId code w = Inr (False, w1) \<Longrightarrow> w1 = w"
  by (auto simp: useBackupCode_def Let_def split: option.splits sum.splits if_splits)

text \<open>
  C3 (as amended). For an unlocked user and a submitted, non-empty code: a TOTP code that
  the authenticator rejects against the decrypted secret, and a backup code that
  \<^verbatim>\<open>useBackupCode\<close> reports as not valid, are rejected (\<open>Invalid MFA code\<close>,
  \<open>Invalid or already used backup code\<close>) with \<^verbatim>\<open>recordFailure\<close> run on the store first; with
  the user in the store and the numbers in the exact range, the stored \<open>failedAttempts\<close> is
  then one higher. A missing code and a stored secret that is missing or does not decrypt
  are turned away by the guards in front of the verification, without failure accounting.
\<close>

theorem onAuthValidateStep_invalid_code_counts:
  assumes u: "ctx_user ctx = Some u"
    and code: "stepData_code ctx = Some code" "code \<noteq> []"
    and unlocked: "\<not> ls_locked (isLocked now u)"
  shows "(step ctx = ''mfa'' \<and> getDecryptedSecret P sessionSecret u \<noteq> [] \<and>
          \<not> totpVerify (stripChars False code) (getDecryptedSecret P sessionSecret u) \<longrightarrow>
            onAuthValidateStep P totpVerify cfg sessionSecret now ctx w =
              map_option
                (\<lambda>(r, w'). (ctx\<lparr>valid := Some False, error := Some InvalidMfaCode\<rparr>, w'))
                (recordFailure cfg now (user_id u) w)) \<and>
         (step ctx = ''mfa-backup'' \<and>
          useBackupCode P now (pending_userId ctx) (toUpperCase P (stripChars True code)) w =
            Inr (False, w) \<longrightarrow>
            onAuthValidateStep P totpVerify cfg sessionSecret now ctx w =
              map_option
                (\<lambda>(r, w'). (ctx\<lparr>valid := Some False, error := Some InvalidBackupCode\<rparr>, w'))
                (recordFailure cfg now (user_id u) w)) \<and>
         (w = Some st \<and> st (user_id u) = Some su \<and>
          - (2 ^ 53) \<le> failedAttempts (mfa su) + 1 \<and> failedAttempts (mfa su) + 1 \<le> 2 ^ 53 \<and>
          \<bar>lockoutDuration cfg\<bar> \<le> 100000000000 \<and>
          \<bar>now + lockoutDuration cfg * 60 * 1000\<bar> \<le> 8640000000000000 \<longrightarrow>
            (\<exists>r w'. recordFailure cfg now (user_id u) w = Some (r, w') \<and>
               map_option failedAttempts (storedMfa (user_id u) w') =
                 Some (failedAttempts (mfa su) + 1)))"
proof (intro conjI impI)
  assume "step ctx = ''mfa'' \<and> getDecryptedSecret P sessionSecret u \<noteq> [] \<and>
          \<not> totpVerify (stripChars False code) (getDecryptedSecret P sessionSecret u)"
  then show "onAuthValidateStep P totpVerify cfg sessionSecret now ctx w =
              map_option
                (\<lambda>(r, w'). (ctx\<lparr>valid := Some False, error := Some InvalidMfaCode\<rparr>, w'))
                (recordFailure cfg now (user_id u) w)"
    using u code unlocked by (simp add: onAuthValidateStep_def Let_def)
next
  assume "step ctx = ''mfa-backup'' \<and>
          useBackupCode P now (pending_userId ctx) (toUpperCase P (stripChars True code)) w =
            Inr (False, w)"
  then show "onAuthValidateStep P totpVerify cfg sessionSecret now ctx w =
              map_option
                (\<lambda>(r, w'). (ctx\<lparr>valid := Some False, error := Some InvalidBackupCode\<rparr>, w'))
                (recordFailure cfg now (user_id u) w)"
    using u code unlocked by (simp add: onAuthValidateStep_def Let_def)
next
  assume h: "w = Some st \<and> st (user_id u) = Some su \<and>
          - (2 ^ 53) \<le> failedAttempts (mfa su) + 1 \<and> failedAttempts (mfa su) + 1 \<le> 2 ^ 53 \<and>
          \<bar>lockoutDuration cfg\<bar> \<le> 100000000000 \<and>
          \<bar>now + lockoutDuration cfg * 60 * 1000\<bar> \<le> 8640000000000000"
  then have "maxFailedAttempts cfg \<le> failedAttempts (mfa su) + 1 \<longrightarrow>
         \<bar>now + lockoutDuration cfg * 60 * 1000\<bar> \<le> 8640000000000000" by simp
  from recordFailure_Some [of st "user_id u" su cfg now, OF _ _ _ _ this] h
  show "\<exists>r w'. recordFailure cfg now (user_id u) w = Some (r, w') \<and>
               map_option failedAttempts (storedMfa (user_id u) w') =
                 Some (failedAttempts (mfa su) + 1)"
    by (simp add: storedMfa_def)
qed

theorem onAuthValidateStep_invalid_code_counts_witness:
  "(\<exists>r w'. recordFailure getDefaultConfig 1000 ''u1'' (store_of alice) = Some (r, w') \<and>
      map_option failedAttempts (storedMfa ''u1'' w') = Some 1 \<and>
      onAuthValidateStep demo_crypto demo_totpVerify getDefaultConfig None 1000
        (login_step ''mfa'' (Some ''000 000'') alice) (store_of alice) =
        Some ((login_step ''mfa'' (Some ''000 000'') alice)
                \<lparr>valid := Some False, error := Some InvalidMfaCode\<rparr>, w') \<and>
      onAuthValidateStep demo_crypto demo_totpVerify getDefaultConfig None 1000
        (login_step ''mfa-backup'' (Some ''0000 0000'') alice) (store_of alice) =
        Some ((login_step ''mfa-backup'' (Some ''0000 0000'') alice)
                \<lparr>valid := Some False, error := Some InvalidBackupCode\<rparr>, w'))"
proof -
  have cfg: "maxFailedAttempts getDefaultConfig = 5" "lockoutDuration getDefaultConfig = 15"
    by (simp_all add: getDefaultConfig_def)
  have tok: "stripChars False ''000 000'' = ''000000''"
    by code_simp
  have wrong: "\<not> demo_totpVerify (stripChars False ''000 000'')
                  (getDecryptedSecret demo_crypto None alice)"
    by (simp add: tok demo_totpVerify_def)
  have clean: "toUpperCase demo_crypto (stripChars True ''0000 0000'') = ''00000000''"
    by code_simp
  have v: "verifyBackupCode demo_crypto ''00000000''
             [hashBackupCode demo_crypto ''A1B2-C3D4'', hashBackupCode demo_crypto ''FFFF-0000'']
           = Inr (- 1)"
    by code_simp
  have unknown: "useBackupCode demo_crypto 1000 ''u1''
      (toUpperCase demo_crypto (stripChars True ''0000 0000'')) (store_of alice) =
      Inr (False, store_of alice)"
    unfolding clean by (simp add: useBackupCode_def store_of_def alice_fields v)
  note T = onAuthValidateStep_invalid_code_counts
    [where u = alice and now = 1000 and P = demo_crypto and sessionSecret = None
       and totpVerify = demo_totpVerify and cfg = getDefaultConfig and w = "store_of alice"
       and st = "[''u1'' \<mapsto> alice]" and su = alice]
  have u1: "ctx_user (login_step ''mfa'' (Some ''000 000'') alice) = Some alice"
    "stepData_code (login_step ''mfa'' (Some ''000 000'') alice) = Some ''000 000''"
    "step (login_step ''mfa'' (Some ''000 000'') alice) = ''mfa''"
    and u2: "ctx_user (login_step ''mfa-backup'' (Some ''0000 0000'') alice) = Some alice"
    "stepData_code (login_step ''mfa-backup'' (Some ''0000 0000'') alice) = Some ''0000 0000''"
    "step (login_step ''mfa-backup'' (Some ''0000 0000'') alice) = ''mfa-backup''"
    "pending_userId (login_step ''mfa-backup'' (Some ''0000 0000'') alice) = ''u1''"
    by (simp_all add: login_step_def)
  note A = T [OF u1(1) u1(2) _ alice_unlocked, unfolded u1 alice_fields]
  note B = T [OF u2(1) u2(2) _ alice_unlocked, unfolded u2 alice_fields]
  have 1: "onAuthValidateStep demo_crypto demo_totpVerify getDefaultConfig None 1000
        (login_step ''mfa'' (Some ''000 000'') alice) (store_of alice) =
      map_option (\<lambda>(r, w'). ((login_step ''mfa'' (Some ''000 000'') alice)
                \<lparr>valid := Some False, error := Some InvalidMfaCode\<rparr>, w'))
        (recordFailure getDefaultConfig 1000 ''u1'' (store_of alice))"
    using A wrong by (simp add: alice_secret demo_secret_nonempty)
  have 2: "onAuthValidateStep demo_crypto demo_totpVerify getDefaultConfig None 1000
        (login_step ''mfa-backup'' (Some ''0000 0000'') alice) (store_of alice) =
      map_option (\<lambda>(r, w'). ((login_step ''mfa-backup'' (Some ''0000 0000'') alice)
                \<lparr>valid := Some False, error := Some InvalidBackupCode\<rparr>, w'))
        (recordFailure getDefaultConfig 1000 ''u1'' (store_of alice))"
    using B unknown by simp
  have 3: "\<exists>r w'. recordFailure getDefaultConfig 1000 ''u1'' (store_of alice) = Some (r, w') \<and>
      map_option failedAttempts (storedMfa ''u1'' w') = Some 1"
    using A by (simp add: store_of_def cfg alice_fields)
  from 3 obtain r w' where
    rf: "recordFailure getDefaultConfig 1000 ''u1'' (store_of alice) = Some (r, w')"
    and fa: "map_option failedAttempts (storedMfa ''u1'' w') = Some 1" by blast
  show ?thesis
    using 1 2 fa unfolding rf by (intro exI [of _ r] exI [of _ w']) simp
qed

text \<open>
  The other direction: a step that starts without an error and ends with
  \<open>Invalid MFA code\<close> or \<open>Invalid or already used backup code\<close> has run \<^verbatim>\<open>recordFailure\<close>.
\<close>

lemma onAuthValidateStep_rejection_was_counted:
  assumes "error ctx = None"
    and "onAuthValidateStep P totpVerify cfg sessionSecret now ctx w = Some (ctx', w')"
    and "error ctx' = Some InvalidMfaCode \<or> error ctx' = Some InvalidBackupCode"
  shows "\<exists>u r. ctx_user ctx = Some u \<and> recordFailure cfg now (user_id u) w = Some (r, w')"
  using assms
  by (auto simp: onAuthValidateStep_def Let_def
      split: option.splits if_splits sum.splits prod.splits
      dest: useBackupCode_rejects_keeps_store)

text \<open>
  White space of any kind is removed from a submitted code before it is verified: the
  code \<^verbatim>\<open>123\<close>, U+00A0, \<^verbatim>\<open>456\<close> is the token \<^verbatim>\<open>123456\<close>.
\<close>

lemma nbsp_code_is_cleaned: "stripChars False code_with_nbsp = ''123456''"
  unfolding code_with_nbsp_def by code_simp

lemma nbsp_code_accepted:
  "onAuthValidateStep demo_crypto demo_totpVerify getDefaultConfig None 1000
     (login_step ''mfa'' (Some code_with_nbsp) alice) (store_of alice) =
   Some ((login_step ''mfa'' (Some code_with_nbsp) alice)\<lparr>valid := Some True\<rparr>,
         recordSuccess 1000 ''u1'' (store_of alice))"
proof -
  have "code_with_nbsp \<noteq> []" by (simp add: code_with_nbsp_def)
  then show ?thesis
    by (simp add: onAuthValidateStep_def login_step_def alice_unlocked alice_secret
        demo_secret_nonempty nbsp_code_is_cleaned demo_totpVerify_def alice_fields)
qed

text \<open>
  C3 as stated fails: for the enabled, unlocked sample user a step without a code is
  rejected (\<open>MFA code required\<close>), and with a stored secret that does not decrypt a step with
  a code is rejected (\<open>MFA not configured\<close>); in both the store is left as it was, with
  \<open>failedAttempts = 0\<close>, where \<^verbatim>\<open>recordFailure\<close> would have made it 1.
\<close>

theorem onAuthValidateStep_uncounted_rejection_counterexample:
  "enabled (mfa alice) \<and> \<not> ls_locked (isLocked 1000 alice) \<and>
   onAuthValidateStep demo_crypto demo_totpVerify getDefaultConfig None 1000
     (login_step ''mfa'' None alice) (store_of alice) =
     Some ((login_step ''mfa'' None alice)\<lparr>valid := Some False, error := Some CodeRequired\<rparr>,
           store_of alice) \<and>
   enabled (mfa alice_bad_secret) \<and> \<not> ls_locked (isLocked 1000 alice_bad_secret) \<and>
   onAuthValidateStep demo_crypto demo_totpVerify getDefaultConfig None 1000
     (login_step ''mfa'' (Some ''000000'') alice_bad_secret) (store_of alice_bad_secret) =
     Some ((login_step ''mfa'' (Some ''000000'') alice_bad_secret)
             \<lparr>valid := Some False, error := Some MfaNotConfigured\<rparr>,
           store_of alice_bad_secret) \<and>
   map_option failedAttempts (storedMfa ''u1'' (store_of alice)) = Some 0 \<and>
   map_option failedAttempts (storedMfa ''u1'' (store_of alice_bad_secret)) = Some 0 \<and>
   map_option (\<lambda>(r, w'). map_option failedAttempts (storedMfa ''u1'' w'))
     (recordFailure getDefaultConfig 1000 ''u1'' (store_of alice)) = Some (Some 1)"
proof -
  have cfg: "maxFailedAttempts getDefaultConfig = 5" "lockoutDuration getDefaultConfig = 15"
    by (simp_all add: getDefaultConfig_def)
  have rf: "jsAdd 0 1 = 1" by (simp add: jsAdd_def roundToDouble_exact)
  show ?thesis
    by (simp add: onAuthValidateStep_def login_step_def store_of_def storedMfa_def isLocked_def
        alice_fields alice_bad_secret_fields getDecryptedSecret_def decrypt_def
        alice_bad_secret_undecryptable recordFailure_def updateById_def cfg rf Let_def)
qed

lemma apiDisable_policy_check_dead_for_enabled:
  "enabled (mfa u) \<Longrightarrow>
   fst (apiDisable verifyPassword cfg now (Some u) password w) \<noteq> PolicyForbidsDisable"
  by (simp add: apiDisable_def isMfaRequired_def Let_def disableMfa_def
      split: option.split)

text \<open>
  C1. The claim (an enabled user whom the policy obliges cannot disable MFA) does not hold
  of \<^verbatim>\<open>apiDisable\<close>: the sample user is enabled and holds the role \<open>root\<close> that the policy
  \<open>required-for-roles\<close> names, \<^verbatim>\<open>isMfaRequired\<close> answers with the reason \<open>enabled\<close> before it
  looks at the policy, the test \<open>required \<and> reason \<noteq> enabled\<close> lets the request pass, and with
  the right password MFA is disabled and the profile cleared. The same happens under the
  policy \<open>required\<close>.
\<close>

theorem apiDisable_enabled_user_bypasses_policy:
  "enabled (mfa alice) \<and> userRoles alice = [''root''] \<and>
   mfaPolicy roles_policy = ''required-for-roles'' \<and> requiredRoles roles_policy = [''root''] \<and>
   isMfaRequired roles_policy 1000 alice = \<lparr>required = True, reason = Enabled\<rparr> \<and>
   fst (apiDisable demo_verifyPassword roles_policy 1000 (Some alice) (Some ''correct horse'')
          (store_of alice)) = MfaDisabled \<and>
   map_option enabled (storedMfa ''u1''
     (snd (apiDisable demo_verifyPassword roles_policy 1000 (Some alice) (Some ''correct horse'')
          (store_of alice)))) = Some False \<and>
   map_option backupCodes (storedMfa ''u1''
     (snd (apiDisable demo_verifyPassword roles_policy 1000 (Some alice) (Some ''correct horse'')
          (store_of alice)))) = Some [] \<and>
   fst (apiDisable demo_verifyPassword (getDefaultConfig\<lparr>mfaPolicy := ''required''\<rparr>) 1000
          (Some alice) (Some ''correct horse'') (store_of alice)) = MfaDisabled"
  by (simp add: apiDisable_def isMfaRequired_def userRoles_def roles_policy_def
      getDefaultConfig_def alice_fields store_of_def storedMfa_def disableMfa_def
      updateById_def demo_verifyPassword_def)

end
